theory Spec2Isabelle
  imports Complex_Main
begin

section \<open>JavaScript values used by the calculator\<close>

text \<open>
  A JavaScript string is a sequence of UTF-16 code units; a code unit is modelled as a
  natural number.  \<open>js\<close> turns an (ASCII) Isabelle literal into such a string.
\<close>

type_synonym jsstring = "nat list"

definition js :: "string \<Rightarrow> jsstring" where
  "js s = map of_char s"

text \<open>
  A JavaScript number is either finite, one of the two infinities, or NaN.  Finite values
  are idealised: they are exact reals, so rounding to 53 bits, overflow, underflow and the
  sign of zero are not represented (a division by zero takes the sign of its numerator,
  and \<open>tan\<close> is the quotient of \<open>sin\<close> and \<open>cos\<close>, also where \<open>cos\<close> is exactly zero).
  What is represented is how the infinities and NaN arise (division by zero, logarithm of
  zero, domain errors) and how they propagate through the operators, following IEEE 754
  and the ECMAScript definition of each operation.
\<close>

datatype jsnum = Fin real | PInf | NInf | NaN

fun isFinite :: "jsnum \<Rightarrow> bool" where
  "isFinite (Fin x) = True"
| "isFinite _ = False"

fun js_neg :: "jsnum \<Rightarrow> jsnum" where
  "js_neg (Fin x) = Fin (- x)"
| "js_neg PInf = NInf"
| "js_neg NInf = PInf"
| "js_neg NaN = NaN"

fun js_add :: "jsnum \<Rightarrow> jsnum \<Rightarrow> jsnum" where
  "js_add NaN b = NaN"
| "js_add a NaN = NaN"
| "js_add (Fin x) (Fin y) = Fin (x + y)"
| "js_add (Fin x) b = b"
| "js_add a (Fin y) = a"
| "js_add PInf PInf = PInf"
| "js_add NInf NInf = NInf"
| "js_add a b = NaN"

definition js_sub :: "jsnum \<Rightarrow> jsnum \<Rightarrow> jsnum" where
  "js_sub a b = js_add a (js_neg b)"

fun js_mul :: "jsnum \<Rightarrow> jsnum \<Rightarrow> jsnum" where
  "js_mul NaN b = NaN"
| "js_mul a NaN = NaN"
| "js_mul (Fin x) (Fin y) = Fin (x * y)"
| "js_mul (Fin x) b = (if x = 0 then NaN else if 0 < x then b else js_neg b)"
| "js_mul a (Fin y) = (if y = 0 then NaN else if 0 < y then a else js_neg a)"
| "js_mul PInf b = b"
| "js_mul NInf b = js_neg b"

fun js_div :: "jsnum \<Rightarrow> jsnum \<Rightarrow> jsnum" where
  "js_div NaN b = NaN"
| "js_div a NaN = NaN"
| "js_div (Fin x) (Fin y) =
     (if y = 0 then (if x = 0 then NaN else if 0 < x then PInf else NInf)
      else Fin (x / y))"
| "js_div (Fin x) b = Fin 0"
| "js_div a (Fin y) = (if 0 \<le> y then a else js_neg a)"
| "js_div a b = NaN"

definition is_integer :: "real \<Rightarrow> bool" where
  "is_integer x = (of_int \<lfloor>x\<rfloor> = x)"

text \<open>\<open>Math.pow\<close>, case by case as ECMAScript's \<open>Number::exponentiate\<close> lists them.\<close>

fun js_pow :: "jsnum \<Rightarrow> jsnum \<Rightarrow> jsnum" where
  "js_pow b NaN = NaN"
| "js_pow b (Fin y) =
     (if y = 0 then Fin 1
      else (case b of
              NaN \<Rightarrow> NaN
            | PInf \<Rightarrow> (if 0 < y then PInf else Fin 0)
            | NInf \<Rightarrow> (if 0 < y then (if is_integer y \<and> odd \<lfloor>y\<rfloor> then NInf else PInf)
                       else Fin 0)
            | Fin x \<Rightarrow>
                (if x = 0 then (if 0 < y then Fin 0 else PInf)
                 else if is_integer y then
                   (if 0 < y then Fin (x ^ nat \<lfloor>y\<rfloor>) else Fin (1 / x ^ nat \<lfloor>- y\<rfloor>))
                 else if x < 0 then NaN
                 else Fin (x powr y))))"
| "js_pow b PInf =
     (case b of
        NaN \<Rightarrow> NaN
      | Fin x \<Rightarrow> (if 1 < \<bar>x\<bar> then PInf else if \<bar>x\<bar> = 1 then NaN else Fin 0)
      | _ \<Rightarrow> PInf)"
| "js_pow b NInf =
     (case b of
        NaN \<Rightarrow> NaN
      | Fin x \<Rightarrow> (if 1 < \<bar>x\<bar> then Fin 0 else if \<bar>x\<bar> = 1 then NaN else PInf)
      | _ \<Rightarrow> Fin 0)"

fun js_sin :: "jsnum \<Rightarrow> jsnum" where
  "js_sin (Fin x) = Fin (sin x)"
| "js_sin _ = NaN"

fun js_cos :: "jsnum \<Rightarrow> jsnum" where
  "js_cos (Fin x) = Fin (cos x)"
| "js_cos _ = NaN"

fun js_tan :: "jsnum \<Rightarrow> jsnum" where
  "js_tan (Fin x) = js_div (Fin (sin x)) (Fin (cos x))"
| "js_tan _ = NaN"

fun js_log :: "jsnum \<Rightarrow> jsnum" where
  "js_log (Fin x) = (if x < 0 then NaN else if x = 0 then NInf else Fin (ln x))"
| "js_log PInf = PInf"
| "js_log _ = NaN"

fun js_log10 :: "jsnum \<Rightarrow> jsnum" where
  "js_log10 (Fin x) = (if x < 0 then NaN else if x = 0 then NInf else Fin (log 10 x))"
| "js_log10 PInf = PInf"
| "js_log10 _ = NaN"

fun js_sqrt :: "jsnum \<Rightarrow> jsnum" where
  "js_sqrt (Fin x) = (if x < 0 then NaN else Fin (sqrt x))"
| "js_sqrt PInf = PInf"
| "js_sqrt _ = NaN"

definition js_PI :: jsnum where "js_PI = Fin pi"
definition js_E :: jsnum where "js_E = Fin (exp 1)"
definition js_LN10 :: jsnum where "js_LN10 = Fin (ln 10)"

section \<open>Tokens and errors\<close>

text \<open>
  A token is an object \<open>{type, value}\<close>; the constructor is the \<open>type\<close> field.  \<open>Func\<close> is
  the type of the synthetic unary-minus marker \<open>u-\<close> that only \<open>toRPN\<close> creates.
\<close>

datatype token =
    Number jsnum
  | Name jsstring
  | LParen
  | RParen
  | Comma
  | Postfix jsstring
  | Op jsstring
  | Func jsstring

text \<open>One constructor for each \<open>throw\<close> of the source, and the two errors the runtime raises.\<close>

datatype error =
    InvalidNumber
  | UnexpectedCharacter nat
  | MisplacedComma
  | MismatchedParentheses
  | UnknownTokenType
  | InvalidBinaryOperation
  | MathError
  | InvalidPostfixOperation
  | UnknownPostfix jsstring
  | InvalidUnary
  | InvalidFunctionArg
  | UnknownFunction jsstring
  | UnhandledRPNToken
  | InvalidExpression
  | ResultNotFinite
  | InvalidFactorial
  | FactorialRequiresInteger
  | ResultTooLarge
  | InvalidTrigArg
  | UnknownTrig
  | TypeError
  | ReferenceError

text \<open>
  The part of the calculator's state that evaluation reads: the DEG/RAD flag.  \<open>hasLog10\<close>
  records whether the host provides \<open>Math.log10\<close>.
\<close>

record env =
  useDegrees :: bool
  hasLog10 :: bool

section \<open>Utilities\<close>

definition isDigit :: "nat \<Rightarrow> bool" where
  "isDigit c = (48 \<le> c \<and> c \<le> 57)"

definition isAlpha :: "nat \<Rightarrow> bool" where
  "isAlpha c = ((65 \<le> c \<and> c \<le> 90) \<or> (97 \<le> c \<and> c \<le> 122))"

text \<open>The class \<open>\s\<close> of a JavaScript regular expression.\<close>

definition isWhitespace :: "nat \<Rightarrow> bool" where
  "isWhitespace c =
     (c \<in> {9, 10, 11, 12, 13, 32, 160, 5760, 8232, 8233, 8239, 8287, 12288, 65279}
      \<or> (8192 \<le> c \<and> c \<le> 8202))"

definition isNumChar :: "nat \<Rightarrow> bool" where
  "isNumChar c = (isDigit c \<or> c = of_char CHR ''.'')"

definition isAlnum :: "nat \<Rightarrow> bool" where
  "isAlnum c = (isAlpha c \<or> isDigit c)"

text \<open>\<open>toLowerCase\<close>; the tokenizer applies it to runs of ASCII letters and digits only.\<close>

definition toLowerCase :: "jsstring \<Rightarrow> jsstring" where
  "toLowerCase s = map (\<lambda>c. if 65 \<le> c \<and> c \<le> 90 then c + 32 else c) s"

definition digits_val :: "jsstring \<Rightarrow> real" where
  "digits_val ds = foldl (\<lambda>a d. 10 * a + real (d - 48)) 0 ds"

text \<open>
  \<open>parseFloat\<close> on what the tokenizer hands it: digits with at most one dot.  The value is
  the decimal number written, without rounding.
\<close>

definition parseFloat :: "jsstring \<Rightarrow> jsnum" where
  "parseFloat s =
     (let ip = takeWhile isDigit s;
          fp = takeWhile isDigit (drop 1 (dropWhile isDigit s))
      in Fin (digits_val ip + digits_val fp / 10 ^ length fp))"

function factorial_loop :: "real \<Rightarrow> real \<Rightarrow> jsnum \<Rightarrow> jsnum" where
  "factorial_loop i n r = (if i \<le> n then factorial_loop (i + 1) n (js_mul r (Fin i)) else r)"
  by pat_completeness auto
termination
  by (relation "measure (\<lambda>(i, n, r). nat \<lceil>n - i + 1\<rceil>)") (auto, linarith)

declare factorial_loop.simps [simp del]

fun factorial :: "jsnum \<Rightarrow> error + jsnum" where
  "factorial (Fin n) =
     (if n < 0 then Inl InvalidFactorial
      else if of_int \<lfloor>n\<rfloor> \<noteq> n then Inl FactorialRequiresInteger
      else if 170 < n then Inl ResultTooLarge
      else Inr (factorial_loop 2 n (Fin 1)))"
| "factorial _ = Inl InvalidFactorial"

definition trig_names :: "jsstring list" where
  "trig_names = [js ''sin'', js ''cos'', js ''tan'', js ''sec'', js ''csc'', js ''cot'']"

definition trigOp :: "env \<Rightarrow> jsstring \<Rightarrow> jsnum \<Rightarrow> error + jsnum" where
  "trigOp E name x =
     (if \<not> isFinite x then Inl InvalidTrigArg
      else let v = (if useDegrees E then js_div (js_mul x js_PI) (Fin 180) else x)
           in if name = js ''sin'' then Inr (js_sin v)
              else if name = js ''cos'' then Inr (js_cos v)
              else if name = js ''tan'' then Inr (js_tan v)
              else if name = js ''csc'' then Inr (js_div (Fin 1) (js_sin v))
              else if name = js ''sec'' then Inr (js_div (Fin 1) (js_cos v))
              else if name = js ''cot'' then Inr (js_div (Fin 1) (js_tan v))
              else Inl UnknownTrig)"

section \<open>Tokenizer\<close>

function tokenize_loop :: "jsstring \<Rightarrow> token list \<Rightarrow> error + token list" where
  "tokenize_loop [] tokens = Inr tokens"
| "tokenize_loop (ch # rest) tokens =
     (if isWhitespace ch then tokenize_loop rest tokens
      else if isDigit ch \<or> (ch = of_char CHR ''.'' \<and> (case rest of [] \<Rightarrow> False | c # _ \<Rightarrow> isDigit c)) then
        (let numStr = ch # takeWhile isNumChar rest
         in if 1 < length (filter (\<lambda>c. c = of_char CHR ''.'') numStr) then Inl InvalidNumber
            else tokenize_loop (dropWhile isNumChar rest) (tokens @ [Number (parseFloat numStr)]))
      else if isAlpha ch then
        tokenize_loop (dropWhile isAlnum rest)
          (tokens @ [Name (toLowerCase (ch # takeWhile isAlnum rest))])
      else if ch = of_char CHR ''('' then tokenize_loop rest (tokens @ [LParen])
      else if ch = of_char CHR '')'' then tokenize_loop rest (tokens @ [RParen])
      else if ch = of_char CHR '','' then tokenize_loop rest (tokens @ [Comma])
      else if ch = of_char CHR ''!'' \<or> ch = of_char CHR ''%'' then
        tokenize_loop rest (tokens @ [Postfix [ch]])
      else if ch \<in> set (js ''+-*/^'') then tokenize_loop rest (tokens @ [Op [ch]])
      else if ch = 247 then tokenize_loop rest (tokens @ [Op (js ''/'')])
      else if ch = 215 then tokenize_loop rest (tokens @ [Op (js ''*'')])
      else if ch = 8722 \<or> ch = 8212 then tokenize_loop rest (tokens @ [Op (js ''-'')])
      else Inl (UnexpectedCharacter ch))"
  by pat_completeness auto
termination
  by (relation "measure (\<lambda>(s, tokens). length s)")
     (auto simp: le_imp_less_Suc length_dropWhile_le)

declare tokenize_loop.simps(2) [simp del]

definition tokenize :: "jsstring \<Rightarrow> error + token list" where
  "tokenize s = tokenize_loop s []"

section \<open>Shunting-yard: infix to RPN\<close>

datatype associativity = AssocL | AssocR

record opdesc =
  prec :: nat
  assoc :: associativity
  fn :: "jsnum \<Rightarrow> jsnum \<Rightarrow> jsnum"

definition OPS :: "jsstring \<Rightarrow> opdesc option" where
  "OPS s =
     (if s = js ''+'' then Some \<lparr>prec = 2, assoc = AssocL, fn = js_add\<rparr>
      else if s = js ''-'' then Some \<lparr>prec = 2, assoc = AssocL, fn = js_sub\<rparr>
      else if s = js ''*'' then Some \<lparr>prec = 3, assoc = AssocL, fn = js_mul\<rparr>
      else if s = js ''/'' then Some \<lparr>prec = 3, assoc = AssocL, fn = js_div\<rparr>
      else if s = js ''^'' then Some \<lparr>prec = 4, assoc = AssocR, fn = js_pow\<rparr>
      else None)"

text \<open>The stacks are lists whose head is the top; the output grows at its end.\<close>

fun pop_until_lparen :: "token list \<Rightarrow> token list \<Rightarrow> token list \<times> token list" where
  "pop_until_lparen output [] = (output, [])"
| "pop_until_lparen output (top_tok # stack) =
     (if top_tok = LParen then (output, top_tok # stack)
      else pop_until_lparen (output @ [top_tok]) stack)"

text \<open>
  The inner loop of the operator case.  Looking up an operator that is not in \<open>OPS\<close> gives
  \<open>undefined\<close>, and reading \<open>.prec\<close> of it raises a TypeError.
\<close>

fun pop_ops :: "jsstring \<Rightarrow> token list \<Rightarrow> token list \<Rightarrow> error + token list \<times> token list" where
  "pop_ops o1 output [] = Inr (output, [])"
| "pop_ops o1 output (top_tok # stack) =
     (case top_tok of
        Op o2 \<Rightarrow>
          (case OPS o1 of
             None \<Rightarrow> Inl TypeError
           | Some d1 \<Rightarrow>
               (case OPS o2 of
                  None \<Rightarrow> Inl TypeError
                | Some d2 \<Rightarrow>
                    if (assoc d1 = AssocL \<and> prec d1 \<le> prec d2)
                       \<or> (assoc d1 = AssocR \<and> prec d1 < prec d2)
                    then pop_ops o1 (output @ [top_tok]) stack
                    else Inr (output, top_tok # stack)))
      | _ \<Rightarrow> Inr (output, top_tok # stack))"

definition isUnary :: "jsstring \<Rightarrow> token option \<Rightarrow> bool" where
  "isUnary v prevToken =
     (v = js ''-'' \<and>
      (case prevToken of
         None \<Rightarrow> True
       | Some p \<Rightarrow> (case p of Op _ \<Rightarrow> True | LParen \<Rightarrow> True | Comma \<Rightarrow> True | _ \<Rightarrow> False)))"

text \<open>One iteration of the \<open>for\<close> loop of \<open>toRPN\<close>, on the output and the stack.\<close>

fun toRPN_step ::
  "token \<Rightarrow> token list \<Rightarrow> token list \<Rightarrow> token option \<Rightarrow> error + token list \<times> token list" where
  "toRPN_step (Number v) output stack prevToken = Inr (output @ [Number v], stack)"
| "toRPN_step (Name n) output stack prevToken =
     (if n = js ''pi'' then Inr (output @ [Number js_PI], stack)
      else if n = js ''e'' then Inr (output @ [Number js_E], stack)
      else Inr (output, Name n # stack))"
| "toRPN_step Comma output stack prevToken =
     (case pop_until_lparen output stack of
        (output', stack') \<Rightarrow>
          if stack' = [] then Inl MisplacedComma else Inr (output', stack'))"
| "toRPN_step (Op v) output stack prevToken =
     (if isUnary v prevToken then Inr (output, Func (js ''u-'') # stack)
      else (case pop_ops v output stack of
              Inl err \<Rightarrow> Inl err
            | Inr (output', stack') \<Rightarrow> Inr (output', Op v # stack')))"
| "toRPN_step LParen output stack prevToken = Inr (output, LParen # stack)"
| "toRPN_step RParen output stack prevToken =
     (case pop_until_lparen output stack of
        (output', stack') \<Rightarrow>
          (case stack' of
             [] \<Rightarrow> Inl MismatchedParentheses
           | lp # stack'' \<Rightarrow>
               (case stack'' of
                  Name n # stack''' \<Rightarrow> Inr (output' @ [Name n], stack''')
                | Func f # stack''' \<Rightarrow> Inr (output' @ [Func f], stack''')
                | _ \<Rightarrow> Inr (output', stack''))))"
| "toRPN_step (Postfix p) output stack prevToken = Inr (output @ [Postfix p], stack)"
| "toRPN_step (Func f) output stack prevToken = Inl UnknownTokenType"

fun toRPN_loop ::
  "token list \<Rightarrow> token list \<Rightarrow> token list \<Rightarrow> token option \<Rightarrow> error + token list \<times> token list" where
  "toRPN_loop [] output stack prevToken = Inr (output, stack)"
| "toRPN_loop (t # ts) output stack prevToken =
     (case toRPN_step t output stack prevToken of
        Inl err \<Rightarrow> Inl err
      | Inr (output', stack') \<Rightarrow> toRPN_loop ts output' stack' (Some t))"

text \<open>The final \<open>while\<close> loop, which empties the stack into the output.\<close>

fun toRPN_finish :: "token list \<Rightarrow> token list \<Rightarrow> error + token list" where
  "toRPN_finish output [] = Inr output"
| "toRPN_finish output (top_tok # stack) =
     (if top_tok = LParen \<or> top_tok = RParen then Inl MismatchedParentheses
      else toRPN_finish (output @ [top_tok]) stack)"

definition toRPN :: "token list \<Rightarrow> error + token list" where
  "toRPN tokens =
     (case toRPN_loop tokens [] [] None of
        Inl err \<Rightarrow> Inl err
      | Inr (output, stack) \<Rightarrow> toRPN_finish output stack)"

section \<open>RPN evaluator\<close>

text \<open>The branch of \<open>evalRPN\<close> for tokens of type \<open>name\<close> or \<open>func\<close>.\<close>

definition apply_named :: "env \<Rightarrow> jsstring \<Rightarrow> jsnum list \<Rightarrow> error + jsnum list" where
  "apply_named E name st =
     (if name = js ''u-'' then
        (case st of [] \<Rightarrow> Inl InvalidUnary | a # st' \<Rightarrow> Inr (js_neg a # st'))
      else if name \<in> set trig_names then
        (case st of
           [] \<Rightarrow> Inl InvalidFunctionArg
         | a # st' \<Rightarrow> (case trigOp E name a of Inl err \<Rightarrow> Inl err | Inr v \<Rightarrow> Inr (v # st')))
      else if name = js ''ln'' then
        (case st of [] \<Rightarrow> Inl InvalidFunctionArg | a # st' \<Rightarrow> Inr (js_log a # st'))
      else if name = js ''log'' then
        (case st of
           [] \<Rightarrow> Inl InvalidFunctionArg
         | a # st' \<Rightarrow>
             if hasLog10 E then Inr (js_log10 a # st')
             else Inr (js_div (js_log a) js_LN10 # st'))
      else if name = js ''sqrt'' then
        (case st of [] \<Rightarrow> Inl InvalidFunctionArg | a # st' \<Rightarrow> Inr (js_sqrt a # st'))
      else Inl (UnknownFunction name))"

fun evalRPN_step :: "env \<Rightarrow> token \<Rightarrow> jsnum list \<Rightarrow> error + jsnum list" where
  "evalRPN_step E (Number v) st = Inr (v # st)"
| "evalRPN_step E (Op v) st =
     (case st of
        b # a # st' \<Rightarrow>
          (case OPS v of
             None \<Rightarrow> Inl TypeError
           | Some d \<Rightarrow>
               (let res = fn d a b
                in if \<not> isFinite res then Inl MathError else Inr (res # st')))
      | _ \<Rightarrow> Inl InvalidBinaryOperation)"
| "evalRPN_step E (Postfix v) st =
     (case st of
        [] \<Rightarrow> Inl InvalidPostfixOperation
      | a # st' \<Rightarrow>
          if v = js ''!'' then
            (case factorial a of Inl err \<Rightarrow> Inl err | Inr r \<Rightarrow> Inr (r # st'))
          else if v = js ''%'' then Inr (js_div a (Fin 100) # st')
          else Inl (UnknownPostfix v))"
| "evalRPN_step E (Name name) st = apply_named E name st"
| "evalRPN_step E (Func name) st = apply_named E name st"
| "evalRPN_step E t st = Inl UnhandledRPNToken"

fun evalRPN_loop :: "env \<Rightarrow> jsnum list \<Rightarrow> token list \<Rightarrow> error + jsnum list" where
  "evalRPN_loop E st [] = Inr st"
| "evalRPN_loop E st (t # ts) =
     (case evalRPN_step E t st of
        Inl err \<Rightarrow> Inl err
      | Inr st' \<Rightarrow> evalRPN_loop E st' ts)"

definition evalRPN :: "env \<Rightarrow> token list \<Rightarrow> error + jsnum" where
  "evalRPN E rpn =
     (case evalRPN_loop E [] rpn of
        Inl err \<Rightarrow> Inl err
      | Inr st \<Rightarrow>
          if length st \<noteq> 1 then Inl InvalidExpression
          else (let final = hd st
                in if \<not> isFinite final then Inl ResultNotFinite else Inr final))"

section \<open>The pipeline\<close>

definition normalize :: "jsstring \<Rightarrow> jsstring" where
  "normalize str =
     filter (\<lambda>c. \<not> isWhitespace c)
       (map (\<lambda>c. if c = 247 then of_char CHR ''/''
                 else if c = 215 then of_char CHR ''*''
                 else if c = 8722 then of_char CHR ''-''
                 else c) str)"

definition internalEvaluateExpression :: "env \<Rightarrow> jsstring \<Rightarrow> error + jsnum" where
  "internalEvaluateExpression E str =
     (case tokenize (normalize str) of
        Inl err \<Rightarrow> Inl err
      | Inr tokens \<Rightarrow>
          (case toRPN tokens of
             Inl err \<Rightarrow> Inl err
           | Inr rpn \<Rightarrow> evalRPN E rpn))"

section \<open>The bridge to the global object\<close>

text \<open>
  The values that the names read by the bridge can hold.  A function is either the
  calculator's own \<open>internalEvaluateExpression\<close> or a function of another script, given by
  what it returns.
\<close>

datatype jsfun = InternalEvaluateExpression | Foreign "jsstring \<Rightarrow> error + jsval"
and jsval = Undefined | NumV jsnum | StrV jsstring | FunV jsfun

type_synonym scope = "string \<rightharpoonup> jsval"

text \<open>An identifier is looked up along the scope chain, innermost scope first.\<close>

fun resolve :: "scope list \<Rightarrow> string \<Rightarrow> jsval option" where
  "resolve [] x = None"
| "resolve (sc # scs) x = (case sc x of Some v \<Rightarrow> Some v | None \<Rightarrow> resolve scs x)"

text \<open>
  The declarations of the function expression that wraps the calculator are bindings of its
  own scope; \<open>internalEvaluateExpression\<close> is one of them.  The body assigns no property of
  \<open>window\<close> and no undeclared name, so it leaves the global object as it finds it.  Code
  inside it sees the chain \<open>[iife_scope, g]\<close>, code after it the chain \<open>[g]\<close>.
\<close>

definition iife_scope :: scope where
  "iife_scope = [''internalEvaluateExpression'' \<mapsto> FunV InternalEvaluateExpression]"

fun typeof_function :: "jsval option \<Rightarrow> bool" where
  "typeof_function (Some (FunV f)) = True"
| "typeof_function _ = False"

fun call :: "env \<Rightarrow> jsval \<Rightarrow> jsstring \<Rightarrow> error + jsval" where
  "call E (FunV InternalEvaluateExpression) arg =
     (case internalEvaluateExpression E arg of Inl err \<Rightarrow> Inl err | Inr n \<Rightarrow> Inr (NumV n))"
| "call E (FunV (Foreign h)) arg = h arg"
| "call E v arg = Inl TypeError"

text \<open>Reading a property that the object does not have gives \<open>undefined\<close>.\<close>

definition property :: "scope \<Rightarrow> string \<Rightarrow> jsval" where
  "property g x = (case g x of None \<Rightarrow> Undefined | Some v \<Rightarrow> v)"

text \<open>\<open>window.evaluateExpression\<close>, called when the global object is \<open>g\<close>.\<close>

definition evaluateExpression :: "env \<Rightarrow> scope \<Rightarrow> jsstring \<Rightarrow> jsval" where
  "evaluateExpression E g expr =
     (case call E (property g ''_internalEvaluate'') expr of
        Inr v \<Rightarrow> v
      | Inl e \<Rightarrow>
          (case (case resolve [g] ''internalEvaluateExpression'' of
                   None \<Rightarrow> Inl ReferenceError
                 | Some f \<Rightarrow> call E f expr) of
             Inr v \<Rightarrow> v
           | Inl err \<Rightarrow> StrV (js ''Error'')))"

text \<open>The shim after it, run at the top level of the script on the global object \<open>g\<close>.\<close>

definition shim :: "scope \<Rightarrow> scope" where
  "shim g =
     (if \<not> typeof_function (g ''_internalEvaluate'') then
        (if typeof_function (resolve [g] ''internalEvaluateExpression'')
         then g(''_internalEvaluate'' \<mapsto> the (resolve [g] ''internalEvaluateExpression''))
         else g)
      else g)"

section \<open>Reference notions\<close>

text \<open>
  The names that resolve: the two constants, and the functions \<open>evalRPN\<close> dispatches on.
\<close>

definition known_names :: "jsstring list" where
  "known_names = [js ''pi'', js ''e''] @ trig_names @ [js ''ln'', js ''log'', js ''sqrt'']"

subsection \<open>Standard evaluation of an expression of literals and binary operators\<close>

text \<open>
  The operator table as the specification words it: precedences 2, 2, 3, 3, 4 for
  \<open>+ - * / ^\<close>, with \<open>^\<close> right-associative and the others left-associative.
\<close>

definition binary_ops :: "jsstring list" where
  "binary_ops = [js ''+'', js ''-'', js ''*'', js ''/'', js ''^'']"

definition spec_prec :: "jsstring \<Rightarrow> nat" where
  "spec_prec v =
     (if v = js ''+'' \<or> v = js ''-'' then 2
      else if v = js ''*'' \<or> v = js ''/'' then 3
      else 4)"

definition spec_right_assoc :: "jsstring \<Rightarrow> bool" where
  "spec_right_assoc v = (v = js ''^'')"

definition spec_apply :: "jsstring \<Rightarrow> jsnum \<Rightarrow> jsnum \<Rightarrow> jsnum" where
  "spec_apply v a b =
     (if v = js ''+'' then js_add a b
      else if v = js ''-'' then js_sub a b
      else if v = js ''*'' then js_mul a b
      else if v = js ''/'' then js_div a b
      else js_pow a b)"

datatype tree = Lit jsnum | Bin jsstring tree tree

fun infix_tokens :: "tree \<Rightarrow> token list" where
  "infix_tokens (Lit x) = [Number x]"
| "infix_tokens (Bin v l r) = infix_tokens l @ [Op v] @ infix_tokens r"

fun postfix_tokens :: "tree \<Rightarrow> token list" where
  "postfix_tokens (Lit x) = [Number x]"
| "postfix_tokens (Bin v l r) = postfix_tokens l @ postfix_tokens r @ [Op v]"

fun root_op :: "tree \<Rightarrow> jsstring option" where
  "root_op (Lit x) = None"
| "root_op (Bin v l r) = Some v"

text \<open>
  A tree is the reading of its infix tokens when none of its subtrees would need
  parentheses: a left operand binds tighter than its parent, or as tight under a
  left-associative parent; a right operand binds tighter, or as tight under a
  right-associative parent.
\<close>

fun respects_precedence :: "tree \<Rightarrow> bool" where
  "respects_precedence (Lit x) = True"
| "respects_precedence (Bin v l r) =
     (respects_precedence l \<and> respects_precedence r
      \<and> (case root_op l of
            None \<Rightarrow> True
          | Some u \<Rightarrow> spec_prec v < spec_prec u
                      \<or> (spec_prec u = spec_prec v \<and> \<not> spec_right_assoc v))
      \<and> (case root_op r of
            None \<Rightarrow> True
          | Some u \<Rightarrow> spec_prec v < spec_prec u
                      \<or> (spec_prec u = spec_prec v \<and> spec_right_assoc v)))"

text \<open>
  The value of a tree: operands left to right, then the operator; a result that is not
  finite is an error.
\<close>

fun tree_value :: "tree \<Rightarrow> error + jsnum" where
  "tree_value (Lit x) = Inr x"
| "tree_value (Bin v l r) =
     (case tree_value l of
        Inl err \<Rightarrow> Inl err
      | Inr a \<Rightarrow>
          (case tree_value r of
             Inl err \<Rightarrow> Inl err
           | Inr b \<Rightarrow>
               if isFinite (spec_apply v a b) then Inr (spec_apply v a b) else Inl MathError))"

definition standard_value :: "tree \<Rightarrow> error + jsnum" where
  "standard_value t =
     (case tree_value t of
        Inl err \<Rightarrow> Inl err
      | Inr x \<Rightarrow> if isFinite x then Inr x else Inl ResultNotFinite)"

text \<open>
  An expression \<open>x0 v1 x1 v2 x2 \<dots>\<close> is a first literal and a list of operator-literal
  pairs.  Its tree is built by hanging each new pair on the right spine, below every
  operator that binds less tightly than the new one.
\<close>

definition expression_tokens :: "jsnum \<Rightarrow> (jsstring \<times> jsnum) list \<Rightarrow> token list" where
  "expression_tokens x0 rest = Number x0 # concat (map (\<lambda>(v, x). [Op v, Number x]) rest)"

definition binds_tighter :: "jsstring \<Rightarrow> jsstring \<Rightarrow> bool" where
  "binds_tighter v u =
     (spec_prec u < spec_prec v \<or> (spec_prec u = spec_prec v \<and> spec_right_assoc v))"

fun insert_op :: "jsstring \<Rightarrow> jsnum \<Rightarrow> tree \<Rightarrow> tree" where
  "insert_op v x (Lit y) = Bin v (Lit y) (Lit x)"
| "insert_op v x (Bin u l r) =
     (if binds_tighter v u then Bin u l (insert_op v x r) else Bin v (Bin u l r) (Lit x))"

definition expression_tree :: "jsnum \<Rightarrow> (jsstring \<times> jsnum) list \<Rightarrow> tree" where
  "expression_tree x0 rest = foldl (\<lambda>t (v, x). insert_op v x t) (Lit x0) rest"

text \<open>
  The operators on the right spine of a tree, innermost first, and the rest of its
  postfix form: the stack and the output of \<open>toRPN\<close> when it has read the tree's tokens.
\<close>

fun spine :: "tree \<Rightarrow> token list" where
  "spine (Lit x) = []"
| "spine (Bin v l r) = spine r @ [Op v]"

fun body :: "tree \<Rightarrow> token list" where
  "body (Lit x) = [Number x]"
| "body (Bin v l r) = postfix_tokens l @ body r"

fun tree_ops :: "tree \<Rightarrow> jsstring list" where
  "tree_ops (Lit x) = []"
| "tree_ops (Bin v l r) = tree_ops l @ [v] @ tree_ops r"

text \<open>The first literal of a tree and the operator-literal pairs after it, left to right.\<close>

fun first_literal :: "tree \<Rightarrow> jsnum" where
  "first_literal (Lit x) = x"
| "first_literal (Bin v l r) = first_literal l"

fun operator_pairs :: "tree \<Rightarrow> (jsstring \<times> jsnum) list" where
  "operator_pairs (Lit x) = []"
| "operator_pairs (Bin v l r) = operator_pairs l @ [(v, first_literal r)] @ operator_pairs r"

text \<open>
  A decimal literal as the tokenizer reads one: digits with at most one dot, starting with
  a digit or with a dot before a digit.  An expression in text is a first literal and a
  list of operator-literal pairs.
\<close>

definition literal_string :: "jsstring \<Rightarrow> bool" where
  "literal_string s =
     (s \<noteq> [] \<and> list_all isNumChar s
      \<and> length (filter (\<lambda>c. c = of_char CHR ''.'') s) \<le> 1
      \<and> (isDigit (hd s) \<or> (case tl s of [] \<Rightarrow> False | c # _ \<Rightarrow> isDigit c)))"

definition expression_string :: "jsstring \<Rightarrow> (jsstring \<times> jsstring) list \<Rightarrow> jsstring" where
  "expression_string s0 rest = s0 @ concat (map (\<lambda>(v, s). v @ s) rest)"

subsection \<open>Matched parentheses\<close>

text \<open>
  The tokens the tokenizer can produce: no \<open>Func\<close> marker, and only the five operators.
\<close>

fun lexer_token :: "token \<Rightarrow> bool" where
  "lexer_token (Func f) = False"
| "lexer_token (Op v) = (v \<in> set binary_ops)"
| "lexer_token t = True"

text \<open>
  One pass with the number of open parentheses: a right parenthesis needs an open one and
  closes it, a comma needs an open one, and none may be left open at the end.
\<close>

fun paren_scan :: "nat \<Rightarrow> token list \<Rightarrow> bool" where
  "paren_scan depth [] = (depth = 0)"
| "paren_scan depth (LParen # ts) = paren_scan (Suc depth) ts"
| "paren_scan depth (RParen # ts) = (0 < depth \<and> paren_scan (depth - 1) ts)"
| "paren_scan depth (Comma # ts) = (0 < depth \<and> paren_scan depth ts)"
| "paren_scan depth (t # ts) = paren_scan depth ts"

section \<open>Evaluating concrete inputs\<close>

text \<open>The definitions that \<open>simp\<close> unfolds to run the pipeline on a concrete string.\<close>

lemmas pipeline_defs =
  internalEvaluateExpression_def normalize_def tokenize_def tokenize_loop.simps js_def
  isWhitespace_def isDigit_def isAlpha_def isAlnum_def isNumChar_def parseFloat_def
  digits_val_def toLowerCase_def toRPN_def isUnary_def OPS_def evalRPN_def apply_named_def
  js_sub_def trig_names_def is_integer_def

lemma factorial_loop_unfold:
  "factorial_loop i n r = (if i \<le> n then factorial_loop (i + 1) n (js_mul r (Fin i)) else r)"
  by (rule factorial_loop.simps)

lemma factorial_loop_4: "factorial_loop 2 4 (Fin 1) = Fin 24"
proof -
  have "factorial_loop 2 4 (Fin 1) = factorial_loop 3 4 (Fin 2)"
    by (subst factorial_loop_unfold) simp
  also have "\<dots> = factorial_loop 4 4 (Fin 6)"
    by (subst factorial_loop_unfold) simp
  also have "\<dots> = factorial_loop 5 4 (Fin 24)"
    by (subst factorial_loop_unfold) simp
  also have "\<dots> = Fin 24"
    by (subst factorial_loop_unfold) simp
  finally show ?thesis .
qed

section \<open>Unary minus\<close>

lemma isUnary_iff:
  "isUnary v prevToken \<longleftrightarrow>
     v = js ''-'' \<and> (prevToken = None \<or> (\<exists>w. prevToken = Some (Op w))
                      \<or> prevToken = Some LParen \<or> prevToken = Some Comma)"
  by (auto simp: isUnary_def split: option.splits token.splits)

lemma unary_minus_is_pushed_as_func:
  "isUnary v prevToken \<Longrightarrow>
     toRPN_step (Op v) output stack prevToken = Inr (output, Func (js ''u-'') # stack)"
  by simp

lemma unary_minus_after_operator: "internalEvaluateExpression E (js ''3*-2'') = Inr (Fin (- 6))"
  by (simp add: pipeline_defs)

lemma unary_minus_in_parentheses: "internalEvaluateExpression E (js ''3-(-2)'') = Inr (Fin 5)"
  by (simp add: pipeline_defs)

text \<open>
  Claim C1.  A \<open>-\<close> that is the first token, or that follows a binary operator, a left
  parenthesis or a comma, is pushed as the unary marker \<open>u-\<close> (\<open>isUnary_iff\<close>,
  \<open>unary_minus_is_pushed_as_func\<close>), and \<open>3*-2\<close> and \<open>3-(-2)\<close> evaluate to \<open>-6\<close> and \<open>5\<close>.
  The marker is only taken off the stack by a closing parenthesis or at the end of the
  input, so a binary operator that follows is put on top of it and comes out first: the
  postfix form of \<open>-a v b\<close> is \<open>a b v u-\<close>, and the value of \<open>-5+3\<close> is \<open>-(5+3) = -8\<close>, not
  the \<open>-2\<close> of the claim.
\<close>

theorem leading_unary_minus_negates_the_whole_sum:
  "tokenize (js ''-5+3'') = Inr [Op (js ''-''), Number (Fin 5), Op (js ''+''), Number (Fin 3)]
   \<and> toRPN [Op (js ''-''), Number a, Op v, Number b]
       = Inr [Number a, Number b, Op v, Func (js ''u-'')]
   \<and> internalEvaluateExpression E (js ''-5+3'') = Inr (Fin (- 8))"
  by (simp add: pipeline_defs)

section \<open>Postfix operators\<close>

text \<open>
  Claim C8.  A postfix operator is appended to the output where it stands and the operator
  stack is left as it is; so in \<open>a v b p\<close>, for any binary operator \<open>v\<close> and postfix operator
  \<open>p\<close>, \<open>p\<close> is applied to \<open>b\<close> alone before \<open>v\<close>; and \<open>3+4!\<close> is \<open>3 + 24 = 27\<close>.
\<close>

theorem postfix_emitted_in_place:
  "toRPN_step (Postfix p) output stack prevToken = Inr (output @ [Postfix p], stack)
   \<and> toRPN [Number a, Op v, Number b, Postfix p] = Inr [Number a, Number b, Postfix p, Op v]
   \<and> internalEvaluateExpression E (js ''3+4!'') = Inr (Fin 27)"
  by (simp add: pipeline_defs factorial_loop_4)

section \<open>The final stack\<close>

text \<open>
  Claim C9.  \<open>evalRPN\<close> returns a value only when the loop ends with exactly one value on
  the stack, and the value returned is that one; with any other number of values left it
  fails with \<open>Invalid expression\<close>.  (A single value that is not finite is rejected with
  \<open>Result not finite\<close>.)
\<close>

theorem evalRPN_final_stack:
  "(evalRPN E rpn = Inr v \<longrightarrow> evalRPN_loop E [] rpn = Inr [v])
   \<and> (evalRPN_loop E [] rpn = Inr st \<and> length st \<noteq> 1 \<longrightarrow> evalRPN E rpn = Inl InvalidExpression)
   \<and> (evalRPN_loop E [] rpn = Inr [v] \<longrightarrow>
        evalRPN E rpn = (if isFinite v then Inr v else Inl ResultNotFinite))"
proof (cases "evalRPN_loop E [] rpn")
  case (Inl err)
  then show ?thesis by (simp add: evalRPN_def)
next
  case (Inr st')
  show ?thesis
  proof (cases st')
    case Nil
    with Inr show ?thesis by (simp add: evalRPN_def)
  next
    case (Cons x xs)
    with Inr show ?thesis by (cases xs) (auto simp: evalRPN_def Let_def split: if_splits)
  qed
qed

theorem evalRPN_final_stack_witness:
  "evalRPN \<lparr>useDegrees = True, hasLog10 = True\<rparr> [Number (Fin 7)] = Inr (Fin 7)
   \<and> evalRPN_loop \<lparr>useDegrees = True, hasLog10 = True\<rparr> [] [Number (Fin 7)] = Inr [Fin 7]
   \<and> evalRPN_loop \<lparr>useDegrees = True, hasLog10 = True\<rparr> [] [Number (Fin 1), Number (Fin 2)]
       = Inr [Fin 2, Fin 1]
   \<and> length [Fin 2, Fin 1] \<noteq> 1
   \<and> evalRPN \<lparr>useDegrees = True, hasLog10 = True\<rparr> [Number (Fin 1), Number (Fin 2)]
       = Inl InvalidExpression"
proof -
  let ?E = "\<lparr>useDegrees = True, hasLog10 = True\<rparr>"
  have one: "evalRPN ?E [Number (Fin 7)] = Inr (Fin 7)"
    by (simp add: evalRPN_def)
  have two: "evalRPN_loop ?E [] [Number (Fin 1), Number (Fin 2)] = Inr [Fin 2, Fin 1]
             \<and> length [Fin 2, Fin 1] \<noteq> 1"
    by simp
  from one evalRPN_final_stack [of ?E "[Number (Fin 7)]" "Fin 7" "[]"]
  have "evalRPN_loop ?E [] [Number (Fin 7)] = Inr [Fin 7]" by blast
  moreover from two evalRPN_final_stack [of ?E "[Number (Fin 1), Number (Fin 2)]" "Fin 7" "[Fin 2, Fin 1]"]
  have "evalRPN ?E [Number (Fin 1), Number (Fin 2)] = Inl InvalidExpression" by blast
  ultimately show ?thesis using one two by blast
qed

section \<open>Names that do not resolve\<close>

lemma toLowerCase_alnum:
  assumes "\<forall>c\<in>set s. isAlnum c"
  shows "\<forall>c\<in>set (toLowerCase s). isAlnum c"
  using assms by (auto simp: toLowerCase_def isAlnum_def isAlpha_def isDigit_def)

lemma tokenized_name_not_marker:
  assumes "isAlpha ch"
  shows "toLowerCase (ch # takeWhile isAlnum rest) \<noteq> js ''u-''"
proof
  assume eq: "toLowerCase (ch # takeWhile isAlnum rest) = js ''u-''"
  have "\<forall>c\<in>set (ch # takeWhile isAlnum rest). isAlnum c"
    using assms by (auto simp: isAlnum_def dest: set_takeWhileD)
  then have "\<forall>c\<in>set (toLowerCase (ch # takeWhile isAlnum rest)). isAlnum c"
    by (rule toLowerCase_alnum)
  with eq have "isAlnum 45" by (simp add: js_def)
  then show False by (simp add: isAlnum_def isAlpha_def isDigit_def)
qed

lemma apply_named_unknown:
  assumes "name \<notin> set known_names" and "name \<noteq> js ''u-''"
  shows "apply_named E name st = Inl (UnknownFunction name)"
  using assms by (simp add: apply_named_def known_names_def)

lemma evalRPN_loop_unknown_name:
  assumes "Name name \<in> set rpn" and "name \<notin> set known_names" and "name \<noteq> js ''u-''"
  shows "\<exists>err. evalRPN_loop E st rpn = Inl err"
  using assms(1)
proof (induction rpn arbitrary: st)
  case Nil
  then show ?case by simp
next
  case (Cons t ts)
  show ?case
  proof (cases "evalRPN_step E t st")
    case (Inl err)
    then show ?thesis by simp
  next
    case (Inr st')
    have "t \<noteq> Name name"
      using Inr apply_named_unknown [OF assms(2,3)] by auto
    with Cons.prems have "Name name \<in> set ts" by simp
    from Cons.IH [OF this] Inr show ?thesis by simp
  qed
qed

text \<open>
  Claim C4, as amended.  The tokenizer accepts any name, and \<open>toRPN\<close> accepts it too: a name
  other than \<open>pi\<close> and \<open>e\<close> is pushed on the stack as a pending function, resolved or not.
  The error is raised at evaluation time: when \<open>evalRPN\<close> reaches a name that is not one of
  its functions it fails with \<open>Unknown function\<close>, so no postfix sequence that holds such a
  name evaluates.
\<close>

theorem unresolved_name_fails_in_evalRPN:
  assumes "isAlpha ch"
    and "name = toLowerCase (ch # takeWhile isAlnum rest)"
    and "name \<notin> set known_names"
  shows "tokenize_loop (ch # rest) tokens
           = tokenize_loop (dropWhile isAlnum rest) (tokens @ [Name name])
         \<and> toRPN_step (Name name) output stack prevToken = Inr (output, Name name # stack)
         \<and> evalRPN_loop E st (Name name # ts) = Inl (UnknownFunction name)
         \<and> (Name name \<in> set rpn \<longrightarrow> (\<exists>err. evalRPN E rpn = Inl err))"
proof -
  have nw: "\<not> isWhitespace ch" "\<not> isDigit ch" "ch \<noteq> of_char CHR ''.''"
    using assms(1) by (auto simp: isAlpha_def isWhitespace_def isDigit_def)
  have tok: "tokenize_loop (ch # rest) tokens
           = tokenize_loop (dropWhile isAlnum rest) (tokens @ [Name name])"
    using nw assms(1,2) by (simp add: tokenize_loop.simps)
  have marker: "name \<noteq> js ''u-''"
    using tokenized_name_not_marker [OF assms(1)] assms(2) by simp
  have notconst: "name \<noteq> js ''pi''" "name \<noteq> js ''e''"
    using assms(3) by (simp_all add: known_names_def)
  have step: "toRPN_step (Name name) output stack prevToken = Inr (output, Name name # stack)"
    using notconst by simp
  have ev: "evalRPN_loop E st (Name name # ts) = Inl (UnknownFunction name)"
    using apply_named_unknown [OF assms(3) marker] by simp
  have "\<exists>err. evalRPN E rpn = Inl err" if "Name name \<in> set rpn"
    using evalRPN_loop_unknown_name [OF that assms(3) marker, of E "[]"]
    by (auto simp: evalRPN_def)
  with tok step ev show ?thesis by blast
qed

theorem unresolved_name_fails_in_evalRPN_witness:
  "isAlpha 102
   \<and> js ''foo'' = toLowerCase (102 # takeWhile isAlnum (js ''oo(3)''))
   \<and> js ''foo'' \<notin> set known_names
   \<and> tokenize_loop (102 # js ''oo(3)'') [] = tokenize_loop (js ''(3)'') [Name (js ''foo'')]
   \<and> toRPN_step (Name (js ''foo'')) [] [] None = Inr ([], [Name (js ''foo'')])
   \<and> evalRPN_loop \<lparr>useDegrees = True, hasLog10 = True\<rparr> [Fin 3] [Name (js ''foo'')]
       = Inl (UnknownFunction (js ''foo''))
   \<and> Name (js ''foo'') \<in> set [Number (Fin 3), Name (js ''foo'')]
   \<and> (\<exists>err. evalRPN \<lparr>useDegrees = True, hasLog10 = True\<rparr> [Number (Fin 3), Name (js ''foo'')]
              = Inl err)"
proof -
  have h1: "isAlpha 102" by (simp add: isAlpha_def)
  have h2: "js ''foo'' = toLowerCase (102 # takeWhile isAlnum (js ''oo(3)''))"
    by (simp add: js_def toLowerCase_def isAlnum_def isAlpha_def isDigit_def)
  have h3: "js ''foo'' \<notin> set known_names"
    by (simp add: known_names_def trig_names_def js_def)
  have d: "dropWhile isAlnum (js ''oo(3)'') = js ''(3)''"
    by (simp add: js_def isAlnum_def isAlpha_def isDigit_def)
  have m: "Name (js ''foo'') \<in> set [Number (Fin 3), Name (js ''foo'')]" by simp
  note t = unresolved_name_fails_in_evalRPN [OF h1 h2 h3, of "[]" "[]" "[]" None
      "\<lparr>useDegrees = True, hasLog10 = True\<rparr>" "[Fin 3]" "[]" "[Number (Fin 3), Name (js ''foo'')]"]
  from t have c1: "tokenize_loop (102 # js ''oo(3)'') [] = tokenize_loop (js ''(3)'') [Name (js ''foo'')]"
    unfolding d by simp
  from t have c2: "toRPN_step (Name (js ''foo'')) [] [] None = Inr ([], [Name (js ''foo'')])"
    by blast
  from t have c3: "evalRPN_loop \<lparr>useDegrees = True, hasLog10 = True\<rparr> [Fin 3] [Name (js ''foo'')]
       = Inl (UnknownFunction (js ''foo''))"
    by blast
  from t m have c4: "\<exists>err. evalRPN \<lparr>useDegrees = True, hasLog10 = True\<rparr> [Number (Fin 3), Name (js ''foo'')]
              = Inl err"
    by blast
  from h1 h2 h3 m c1 c2 c3 c4 show ?thesis by blast
qed

text \<open>
  Claim C4 as stated fails on \<open>foo(3)\<close>: \<open>toRPN\<close> does not reject the name, it returns the
  postfix form \<open>3 foo\<close>; the error comes from \<open>evalRPN\<close>.
\<close>

theorem unknown_function_accepted_by_toRPN:
  "tokenize (js ''foo(3)'') = Inr [Name (js ''foo''), LParen, Number (Fin 3), RParen]
   \<and> toRPN [Name (js ''foo''), LParen, Number (Fin 3), RParen]
       = Inr [Number (Fin 3), Name (js ''foo'')]
   \<and> evalRPN \<lparr>useDegrees = True, hasLog10 = True\<rparr> [Number (Fin 3), Name (js ''foo'')]
       = Inl (UnknownFunction (js ''foo''))"
  by (simp add: pipeline_defs)

section \<open>Results that are not finite\<close>

lemma binary_step_checks_result:
  assumes "OPS v = Some d"
  shows "evalRPN_step E (Op v) (b # a # st)
           = (if isFinite (fn d a b) then Inr (fn d a b # st) else Inl MathError)"
  using assms by (simp add: Let_def)

text \<open>
  Claim C2.  Only the binary-operator step tests its result (\<open>binary_step_checks_result\<close>);
  the steps for functions, unary minus and \<open>%\<close> push what they compute.  In \<open>1/ln(0)\<close> the
  \<open>ln\<close> step pushes \<open>-Infinity\<close> without failing, the division consumes it, and the
  evaluation returns \<open>0\<close>.
\<close>

theorem nonfinite_logarithm_is_pushed_and_consumed:
  "evalRPN_step E (Name (js ''ln'')) [Fin 0, Fin 1] = Inr [NInf, Fin 1]
   \<and> \<not> isFinite NInf
   \<and> evalRPN_step E (Op (js ''/'')) [NInf, Fin 1] = Inr [Fin 0]
   \<and> toRPN [Number (Fin 1), Op (js ''/''), Name (js ''ln''), LParen, Number (Fin 0), RParen]
       = Inr [Number (Fin 1), Number (Fin 0), Name (js ''ln''), Op (js ''/'')]
   \<and> evalRPN E [Number (Fin 1), Number (Fin 0), Name (js ''ln''), Op (js ''/'')] = Inr (Fin 0)
   \<and> internalEvaluateExpression E (js ''1/ln(0)'') = Inr (Fin 0)"
  by (simp add: pipeline_defs)

section \<open>Trigonometry in degrees and radians\<close>

lemma trig_name_step:
  assumes "name \<in> set trig_names"
  shows "evalRPN_loop E (a # st) (Name name # ts)
           = (case trigOp E name a of
                Inl err \<Rightarrow> Inl err
              | Inr r \<Rightarrow> evalRPN_loop E (r # st) ts)"
proof -
  have "name \<noteq> js ''u-''"
    using assms by (auto simp: trig_names_def js_def)
  then show ?thesis
    using assms by (simp add: apply_named_def split: sum.splits)
qed

lemma degrees_to_radians:
  "js_div (js_mul (Fin x) js_PI) (Fin 180) = Fin (x * (pi / 180))"
  by (simp add: js_PI_def)

text \<open>
  Claim C6.  For a finite argument \<open>a\<close>, each of the six trig functions is applied to
  \<open>a * PI / 180\<close> when the flag \<open>useDegrees\<close> is set and to \<open>a\<close> itself when it is not (in the
  idealised arithmetic \<open>a * PI / 180\<close> is \<open>a\<close> times \<open>pi / 180\<close>); \<open>csc\<close>, \<open>sec\<close> and \<open>cot\<close> are
  \<open>1 / sin\<close>, \<open>1 / cos\<close> and \<open>1 / tan\<close>; and a trig step of an evaluation, wherever it stands,
  calls \<open>trigOp\<close> with the flag of that evaluation.
\<close>

theorem trig_functions_respect_degree_flag:
  assumes "isFinite a"
  shows "(let v = (if useDegrees E then js_div (js_mul a js_PI) (Fin 180) else a)
          in trigOp E (js ''sin'') a = Inr (js_sin v)
             \<and> trigOp E (js ''cos'') a = Inr (js_cos v)
             \<and> trigOp E (js ''tan'') a = Inr (js_tan v)
             \<and> trigOp E (js ''csc'') a = Inr (js_div (Fin 1) (js_sin v))
             \<and> trigOp E (js ''sec'') a = Inr (js_div (Fin 1) (js_cos v))
             \<and> trigOp E (js ''cot'') a = Inr (js_div (Fin 1) (js_tan v)))
         \<and> (\<forall>x. a = Fin x \<longrightarrow> js_div (js_mul a js_PI) (Fin 180) = Fin (x * (pi / 180)))
         \<and> (\<forall>name\<in>set trig_names.
               evalRPN_loop E (a # st) (Name name # ts)
                 = (case trigOp E name a of
                      Inl err \<Rightarrow> Inl err
                    | Inr r \<Rightarrow> evalRPN_loop E (r # st) ts))"
proof -
  have "(let v = (if useDegrees E then js_div (js_mul a js_PI) (Fin 180) else a)
          in trigOp E (js ''sin'') a = Inr (js_sin v)
             \<and> trigOp E (js ''cos'') a = Inr (js_cos v)
             \<and> trigOp E (js ''tan'') a = Inr (js_tan v)
             \<and> trigOp E (js ''csc'') a = Inr (js_div (Fin 1) (js_sin v))
             \<and> trigOp E (js ''sec'') a = Inr (js_div (Fin 1) (js_cos v))
             \<and> trigOp E (js ''cot'') a = Inr (js_div (Fin 1) (js_tan v)))"
    using assms by (simp add: trigOp_def Let_def js_def)
  moreover have "\<forall>x. a = Fin x \<longrightarrow> js_div (js_mul a js_PI) (Fin 180) = Fin (x * (pi / 180))"
    using degrees_to_radians by simp
  moreover have "\<forall>name\<in>set trig_names.
               evalRPN_loop E (a # st) (Name name # ts)
                 = (case trigOp E name a of
                      Inl err \<Rightarrow> Inl err
                    | Inr r \<Rightarrow> evalRPN_loop E (r # st) ts)"
    using trig_name_step by blast
  ultimately show ?thesis by blast
qed

theorem trig_functions_respect_degree_flag_witness:
  "isFinite (Fin 30)
   \<and> trigOp \<lparr>useDegrees = True, hasLog10 = True\<rparr> (js ''sin'') (Fin 30) = Inr (Fin (1 / 2))
   \<and> trigOp \<lparr>useDegrees = True, hasLog10 = True\<rparr> (js ''csc'') (Fin 30) = Inr (Fin 2)
   \<and> trigOp \<lparr>useDegrees = False, hasLog10 = True\<rparr> (js ''sin'') (Fin 30) = Inr (Fin (sin 30))
   \<and> js ''sin'' \<in> set trig_names
   \<and> evalRPN_loop \<lparr>useDegrees = True, hasLog10 = True\<rparr> [Fin 30] [Name (js ''sin'')]
       = Inr [Fin (1 / 2)]"
proof -
  let ?D = "\<lparr>useDegrees = True, hasLog10 = True\<rparr>"
  let ?R = "\<lparr>useDegrees = False, hasLog10 = True\<rparr>"
  have h: "isFinite (Fin 30)" by simp
  have m: "js ''sin'' \<in> set trig_names" by (simp add: trig_names_def)
  note d = trig_functions_respect_degree_flag [OF h, of ?D "[]" "[]"]
  note r = trig_functions_respect_degree_flag [OF h, of ?R "[]" "[]"]
  have v: "js_div (js_mul (Fin 30) js_PI) (Fin 180) = Fin (30 * (pi / 180))"
    using d by blast
  have s: "trigOp ?D (js ''sin'') (Fin 30) = Inr (Fin (1 / 2))"
    using d v by (simp add: Let_def sin_30)
  have c: "trigOp ?D (js ''csc'') (Fin 30) = Inr (Fin 2)"
    using d v by (simp add: Let_def sin_30)
  have s': "trigOp ?R (js ''sin'') (Fin 30) = Inr (Fin (sin 30))"
    using r by (simp add: Let_def)
  have "evalRPN_loop ?D [Fin 30] [Name (js ''sin'')]
          = (case trigOp ?D (js ''sin'') (Fin 30) of
               Inl err \<Rightarrow> Inl err
             | Inr r \<Rightarrow> evalRPN_loop ?D [r] [])"
    using d m by blast
  then have l: "evalRPN_loop ?D [Fin 30] [Name (js ''sin'')] = Inr [Fin (1 / 2)]"
    by (simp add: s)
  from h m s c s' l show ?thesis by blast
qed

section \<open>Factorial\<close>

lemma factorial_loop_eq_foldl:
  "factorial_loop (real k) (real m) r
     = foldl (\<lambda>r i. js_mul r (Fin (real i))) r [k..<Suc m]"
proof (induction "Suc m - k" arbitrary: k r)
  case 0
  then have "m < k" by simp
  then show ?case
    by (subst factorial_loop_unfold) simp
next
  case (Suc d)
  then have le: "k \<le> m" and d: "d = Suc m - Suc k" by simp_all
  have "factorial_loop (real k) (real m) r
          = factorial_loop (real (Suc k)) (real m) (js_mul r (Fin (real k)))"
    using le by (subst factorial_loop_unfold) (simp add: add.commute)
  also have "\<dots> = foldl (\<lambda>r i. js_mul r (Fin (real i))) (js_mul r (Fin (real k))) [Suc k..<Suc m]"
    using Suc.hyps(1) [OF d] .
  also have "\<dots> = foldl (\<lambda>r i. js_mul r (Fin (real i))) r [k..<Suc m]"
  proof -
    have "[k..<Suc m] = k # [Suc k..<Suc m]"
      using le by (intro upt_conv_Cons) simp
    then show ?thesis by (simp only: foldl_Cons)
  qed
  finally show ?case .
qed

lemma iterative_product_fact:
  "foldl (\<lambda>r i. js_mul r (Fin (real i))) (Fin 1) [2..<Suc n] = Fin (fact n)"
proof (induction n)
  case 0
  then show ?case by simp
next
  case (Suc n)
  show ?case
  proof (cases "n = 0")
    case True
    then show ?thesis by simp
  next
    case False
    then have "[2..<Suc (Suc n)] = [2..<Suc n] @ [Suc n]" by simp
    then show ?thesis using Suc.IH by (simp add: mult.commute)
  qed
qed

lemma factorial_of_nat:
  assumes "n \<le> 170"
  shows "factorial (Fin (real n)) = Inr (foldl (\<lambda>r i. js_mul r (Fin (real i))) (Fin 1) [2..<Suc n])"
proof -
  have "factorial_loop 2 (real n) (Fin 1)
          = foldl (\<lambda>r i. js_mul r (Fin (real i))) (Fin 1) [2..<Suc n]"
    using factorial_loop_eq_foldl [of 2 n "Fin 1"] by simp
  then show ?thesis using assms by simp
qed

text \<open>
  Claim C7.  The step for \<open>!\<close> fails on an empty stack; otherwise it pops one value \<open>a\<close>.
  When \<open>a\<close> is finite, not negative, an integer and at most 170, it pushes the product
  \<open>1 * 2 * 3 * \<dots> * a\<close>, multiplied up from the left (in the idealised arithmetic, the
  factorial of \<open>a\<close>); in every other case it fails with one of the three errors of
  \<open>factorial\<close>.  The factorials of 0 and 1 are 1.
\<close>

theorem factorial_step:
  "evalRPN_step E (Postfix (js ''!'')) [] = Inl InvalidPostfixOperation
   \<and> (0 \<le> x \<and> is_integer x \<and> x \<le> 170 \<longrightarrow>
        evalRPN_step E (Postfix (js ''!'')) (Fin x # st)
          = Inr (foldl (\<lambda>r i. js_mul r (Fin (real i))) (Fin 1) [2..<Suc (nat \<lfloor>x\<rfloor>)] # st)
        \<and> foldl (\<lambda>r i. js_mul r (Fin (real i))) (Fin 1) [2..<Suc (nat \<lfloor>x\<rfloor>)]
            = Fin (fact (nat \<lfloor>x\<rfloor>)))
   \<and> (\<not> (\<exists>y. a = Fin y \<and> 0 \<le> y \<and> is_integer y \<and> y \<le> 170) \<longrightarrow>
        (\<exists>err. evalRPN_step E (Postfix (js ''!'')) (a # st) = Inl err
               \<and> err \<in> {InvalidFactorial, FactorialRequiresInteger, ResultTooLarge}))
   \<and> factorial (Fin 0) = Inr (Fin 1)
   \<and> factorial (Fin 1) = Inr (Fin 1)"
proof -
  have underflow: "evalRPN_step E (Postfix (js ''!'')) [] = Inl InvalidPostfixOperation"
    by simp
  have ok: "evalRPN_step E (Postfix (js ''!'')) (Fin x # st)
          = Inr (foldl (\<lambda>r i. js_mul r (Fin (real i))) (Fin 1) [2..<Suc (nat \<lfloor>x\<rfloor>)] # st)"
    if "0 \<le> x" "is_integer x" "x \<le> 170"
  proof -
    have fl: "of_int \<lfloor>x\<rfloor> = x"
      using that(2) unfolding is_integer_def .
    have "0 \<le> \<lfloor>x\<rfloor>" using that(1) by simp
    then have "real (nat \<lfloor>x\<rfloor>) = of_int \<lfloor>x\<rfloor>" by simp
    with fl have x: "x = real (nat \<lfloor>x\<rfloor>)" by linarith
    have "nat \<lfloor>x\<rfloor> \<le> 170" using that by linarith
    from factorial_of_nat [OF this] x show ?thesis by simp
  qed
  have bad: "\<exists>err. evalRPN_step E (Postfix (js ''!'')) (a # st) = Inl err
               \<and> err \<in> {InvalidFactorial, FactorialRequiresInteger, ResultTooLarge}"
    if "\<not> (\<exists>y. a = Fin y \<and> 0 \<le> y \<and> is_integer y \<and> y \<le> 170)"
    using that by (cases a) (auto simp: is_integer_def)
  have zero: "factorial (Fin 0) = Inr (Fin 1)"
    using factorial_of_nat [of 0] by simp
  have one: "factorial (Fin 1) = Inr (Fin 1)"
    using factorial_of_nat [of 1] by simp
  from underflow ok bad zero one iterative_product_fact show ?thesis by blast
qed

theorem factorial_step_witness:
  "0 \<le> (4::real) \<and> is_integer 4 \<and> (4::real) \<le> 170
   \<and> evalRPN_step \<lparr>useDegrees = True, hasLog10 = True\<rparr> (Postfix (js ''!'')) [Fin 4, Fin 3]
       = Inr [Fin 24, Fin 3]
   \<and> \<not> (\<exists>y. Fin (5 / 2) = Fin y \<and> 0 \<le> y \<and> is_integer y \<and> y \<le> 170)
   \<and> evalRPN_step \<lparr>useDegrees = True, hasLog10 = True\<rparr> (Postfix (js ''!'')) [Fin (5 / 2)]
       = Inl FactorialRequiresInteger
   \<and> evalRPN_step \<lparr>useDegrees = True, hasLog10 = True\<rparr> (Postfix (js ''!'')) [Fin 171]
       = Inl ResultTooLarge
   \<and> evalRPN_step \<lparr>useDegrees = True, hasLog10 = True\<rparr> (Postfix (js ''!'')) [Fin (- 1)]
       = Inl InvalidFactorial
   \<and> evalRPN_step \<lparr>useDegrees = True, hasLog10 = True\<rparr> (Postfix (js ''!'')) [PInf]
       = Inl InvalidFactorial"
proof -
  let ?E = "\<lparr>useDegrees = True, hasLog10 = True\<rparr>"
  have h: "0 \<le> (4::real) \<and> is_integer 4 \<and> (4::real) \<le> 170"
    by (simp add: is_integer_def)
  have f: "\<lfloor>5 / 2 :: real\<rfloor> = 2"
    by (simp add: floor_eq_iff)
  have ni: "\<not> is_integer (5 / 2)"
    unfolding is_integer_def f by simp
  have n: "\<not> (\<exists>y. Fin (5 / 2) = Fin y \<and> 0 \<le> y \<and> is_integer y \<and> y \<le> 170)"
  proof
    assume "\<exists>y. Fin (5 / 2) = Fin y \<and> 0 \<le> y \<and> is_integer y \<and> y \<le> 170"
    then obtain y where y: "Fin (5 / 2) = Fin y" and i: "is_integer y" by blast
    from y have "5 / 2 = y" by (simp only: jsnum.inject)
    with i have "is_integer (5 / 2)" by (simp only:)
    with ni show False by blast
  qed
  note t = factorial_step [of ?E 4 "[Fin 3]" "Fin (5 / 2)"]
  from t h have "evalRPN_step ?E (Postfix (js ''!'')) [Fin 4, Fin 3]
      = Inr [Fin (fact (nat \<lfloor>4::real\<rfloor>)), Fin 3]"
    by simp
  then have four: "evalRPN_step ?E (Postfix (js ''!'')) [Fin 4, Fin 3] = Inr [Fin 24, Fin 3]"
    by (simp add: fact_numeral)
  have half: "evalRPN_step ?E (Postfix (js ''!'')) [Fin (5 / 2)] = Inl FactorialRequiresInteger"
    using ni unfolding is_integer_def by (simp add: js_def del: of_int_floor_cancel)
  have big: "evalRPN_step ?E (Postfix (js ''!'')) [Fin 171] = Inl ResultTooLarge"
    by (simp add: js_def)
  have neg: "evalRPN_step ?E (Postfix (js ''!'')) [Fin (- 1)] = Inl InvalidFactorial"
    by (simp add: js_def)
  have inf: "evalRPN_step ?E (Postfix (js ''!'')) [PInf] = Inl InvalidFactorial"
    by (simp add: js_def)
  from h n four half big neg inf show ?thesis by blast
qed

section \<open>The bridge\<close>

text \<open>
  Claim C3.  On a page whose global object binds neither \<open>_internalEvaluate\<close> nor
  \<open>internalEvaluateExpression\<close> before the script runs, the name
  \<open>internalEvaluateExpression\<close> resolves inside the wrapping function but not at the top
  level, so the shim binds nothing; the call of \<open>window._internalEvaluate\<close> then raises a
  TypeError, the fallback a ReferenceError, and \<open>evaluateExpression\<close> returns the string
  \<open>Error\<close> for every input and never a number.
\<close>

theorem bridge_returns_Error:
  assumes "g ''_internalEvaluate'' = None" and "g ''internalEvaluateExpression'' = None"
  shows "resolve [iife_scope, g] ''internalEvaluateExpression''
           = Some (FunV InternalEvaluateExpression)
         \<and> resolve [g] ''internalEvaluateExpression'' = None
         \<and> shim g = g
         \<and> evaluateExpression E (shim g) expr = StrV (js ''Error'')"
  using assms by (simp add: iife_scope_def shim_def evaluateExpression_def property_def)

theorem bridge_returns_Error_witness:
  "Map.empty ''_internalEvaluate'' = (None :: jsval option)
   \<and> Map.empty ''internalEvaluateExpression'' = (None :: jsval option)
   \<and> shim Map.empty = Map.empty
   \<and> call \<lparr>useDegrees = True, hasLog10 = True\<rparr> (FunV InternalEvaluateExpression) (js ''2+3'')
       = Inr (NumV (Fin 5))
   \<and> evaluateExpression \<lparr>useDegrees = True, hasLog10 = True\<rparr> (shim Map.empty) (js ''2+3'')
       = StrV (js ''Error'')"
proof -
  have h1: "Map.empty ''_internalEvaluate'' = (None :: jsval option)" by simp
  have h2: "Map.empty ''internalEvaluateExpression'' = (None :: jsval option)" by simp
  note t = bridge_returns_Error [OF h1 h2, of "\<lparr>useDegrees = True, hasLog10 = True\<rparr>" "js ''2+3''"]
  have c: "call \<lparr>useDegrees = True, hasLog10 = True\<rparr> (FunV InternalEvaluateExpression) (js ''2+3'')
       = Inr (NumV (Fin 5))"
    by (simp add: pipeline_defs)
  from t h1 h2 c show ?thesis by blast
qed

section \<open>Parentheses and commas\<close>

lemma pop_until_lparen_count:
  "count_list (snd (pop_until_lparen output stack)) LParen = count_list stack LParen"
  by (induction stack arbitrary: "output") auto

lemma pop_until_lparen_subset:
  "set (snd (pop_until_lparen output stack)) \<subseteq> set stack"
  by (induction stack arbitrary: "output") auto

lemma pop_until_lparen_shape:
  "snd (pop_until_lparen output stack) = []
   \<or> (\<exists>stk2. snd (pop_until_lparen output stack) = LParen # stk2)"
  by (induction stack arbitrary: "output") auto

lemma pop_until_lparen_result:
  obtains output' stack' where "pop_until_lparen output stack = (output', stack')"
    and "count_list stack' LParen = count_list stack LParen"
    and "set stack' \<subseteq> set stack"
    and "stack' = [] \<or> (\<exists>stk2. stack' = LParen # stk2)"
proof (cases "pop_until_lparen output stack")
  case (Pair output' stack')
  with that [of output' stack'] pop_until_lparen_count [of "output" stack]
    pop_until_lparen_subset [of "output" stack] pop_until_lparen_shape [of "output" stack]
  show ?thesis by simp
qed

lemma OPS_binary_ops: "v \<in> set binary_ops \<Longrightarrow> \<exists>d. OPS v = Some d"
  by (auto simp: binary_ops_def OPS_def)

text \<open>
  On a stack of tokenizer tokens the inner loop of the operator case never fails, and it
  removes operators only.
\<close>

lemma pop_ops_suffix:
  assumes "v \<in> set binary_ops"
    and "\<forall>t\<in>set stack. t \<noteq> RParen \<and> (\<forall>u. t = Op u \<longrightarrow> u \<in> set binary_ops)"
  shows "\<exists>output' pre stack'. pop_ops v output stack = Inr (output', stack')
           \<and> stack = pre @ stack' \<and> (\<forall>t\<in>set pre. \<exists>u. t = Op u)"
  using assms(2)
proof (induction stack arbitrary: "output")
  case Nil
  then show ?case by simp
next
  case (Cons t stack)
  obtain d1 where d1: "OPS v = Some d1" using OPS_binary_ops [OF assms(1)] by blast
  show ?case
  proof (cases t)
    case (Op u)
    with Cons.prems have "u \<in> set binary_ops" by simp
    then obtain d2 where d2: "OPS u = Some d2" using OPS_binary_ops by blast
    show ?thesis
    proof (cases "(assoc d1 = AssocL \<and> prec d1 \<le> prec d2) \<or> (assoc d1 = AssocR \<and> prec d1 < prec d2)")
      case True
      from Cons.prems have "\<forall>t\<in>set stack. t \<noteq> RParen \<and> (\<forall>u. t = Op u \<longrightarrow> u \<in> set binary_ops)"
        by simp
      from Cons.IH [OF this, of "output @ [t]"]
      obtain output' pre stack' where
        "pop_ops v (output @ [t]) stack = Inr (output', stack')"
        "stack = pre @ stack'" "\<forall>t\<in>set pre. \<exists>u. t = Op u"
        by blast
      then have "pop_ops v output (t # stack) = Inr (output', stack')
           \<and> t # stack = (t # pre) @ stack' \<and> (\<forall>t\<in>set (t # pre). \<exists>u. t = Op u)"
        using Op d1 d2 True by simp
      then show ?thesis by blast
    next
      case False
      then have "pop_ops v output (t # stack) = Inr (output, t # stack)
           \<and> t # stack = [] @ (t # stack) \<and> (\<forall>t\<in>set []. \<exists>u. t = Op u)"
        using Op d1 d2 by auto
      then show ?thesis by blast
    qed
  qed (use d1 in force)+
qed

lemma toRPN_finish_eq:
  assumes "RParen \<notin> set stack"
  shows "toRPN_finish output stack
           = (if count_list stack LParen = 0 then Inr (output @ stack)
              else Inl MismatchedParentheses)"
  using assms by (induction stack arbitrary: "output") auto

text \<open>
  What one step of \<open>toRPN\<close> does to the number of left parentheses on the stack is what
  \<open>paren_scan\<close> does to its depth.
\<close>

lemma toRPN_step_depth:
  assumes "lexer_token t"
    and "\<forall>t\<in>set stack. t \<noteq> RParen \<and> (\<forall>u. t = Op u \<longrightarrow> u \<in> set binary_ops)"
  shows "(case toRPN_step t output stack prevToken of
            Inl err \<Rightarrow> err \<in> {MisplacedComma, MismatchedParentheses}
                       \<and> (\<forall>ts. \<not> paren_scan (count_list stack LParen) (t # ts))
          | Inr (output', stack') \<Rightarrow>
              (\<forall>t\<in>set stack'. t \<noteq> RParen \<and> (\<forall>u. t = Op u \<longrightarrow> u \<in> set binary_ops))
              \<and> (\<forall>ts. paren_scan (count_list stack LParen) (t # ts)
                         = paren_scan (count_list stack' LParen) ts))"
proof (cases t)
  case (Number x)
  then show ?thesis using assms(2) by simp
next
  case (Name n)
  then show ?thesis using assms(2) by simp
next
  case LParen
  then show ?thesis using assms(2) by simp
next
  case (Postfix p)
  then show ?thesis using assms(2) by simp
next
  case (Func f)
  then show ?thesis using assms(1) by simp
next
  case Comma
  obtain output' stack' where p: "pop_until_lparen output stack = (output', stack')"
    and cnt: "count_list stack' LParen = count_list stack LParen"
    and sub: "set stack' \<subseteq> set stack"
    and shape: "stack' = [] \<or> (\<exists>stk2. stack' = LParen # stk2)"
    by (rule pop_until_lparen_result)
  have inv: "\<forall>t\<in>set stack'. t \<noteq> RParen \<and> (\<forall>u. t = Op u \<longrightarrow> u \<in> set binary_ops)"
    using assms(2) sub by blast
  from shape show ?thesis
  proof
    assume "stack' = []"
    then show ?thesis using Comma p cnt by simp
  next
    assume "\<exists>stk2. stack' = LParen # stk2"
    then obtain stk2 where s: "stack' = LParen # stk2" by blast
    then have "count_list stack LParen \<noteq> 0" using cnt by auto
    then show ?thesis using Comma p cnt inv s by simp
  qed
next
  case RParen
  obtain output' stack' where p: "pop_until_lparen output stack = (output', stack')"
    and cnt: "count_list stack' LParen = count_list stack LParen"
    and sub: "set stack' \<subseteq> set stack"
    and shape: "stack' = [] \<or> (\<exists>stk2. stack' = LParen # stk2)"
    by (rule pop_until_lparen_result)
  from shape show ?thesis
  proof
    assume "stack' = []"
    then show ?thesis using RParen p cnt by simp
  next
    assume "\<exists>stk2. stack' = LParen # stk2"
    then obtain stk2 where s: "stack' = LParen # stk2" by blast
    then have c: "count_list stack LParen = Suc (count_list stk2 LParen)" using cnt by auto
    have inv: "\<forall>t\<in>set stk2. t \<noteq> RParen \<and> (\<forall>u. t = Op u \<longrightarrow> u \<in> set binary_ops)"
      using assms(2) sub s by auto
    show ?thesis
    proof (cases stk2)
      case Nil
      then show ?thesis using RParen p s c by simp
    next
      case (Cons f stk3)
      then show ?thesis
        using RParen p s c inv by (cases f) simp_all
    qed
  qed
next
  case (Op v)
  show ?thesis
  proof (cases "isUnary v prevToken")
    case True
    then show ?thesis using Op assms(2) by simp
  next
    case False
    from Op assms(1) have v: "v \<in> set binary_ops" by simp
    from pop_ops_suffix [OF v assms(2), of "output"]
    obtain output' pre stack' where p: "pop_ops v output stack = Inr (output', stack')"
      and s: "stack = pre @ stack'" and o: "\<forall>t\<in>set pre. \<exists>u. t = Op u"
      by blast
    have "count_list pre LParen = 0"
      using o by (induction pre) auto
    then have cnt: "count_list stack LParen = count_list stack' LParen"
      using s by simp
    have inv: "\<forall>t\<in>set (Op v # stack'). t \<noteq> RParen \<and> (\<forall>u. t = Op u \<longrightarrow> u \<in> set binary_ops)"
      using assms(2) s v by auto
    show ?thesis using Op False p cnt inv by simp
  qed
qed

lemma toRPN_loop_depth:
  assumes "\<forall>t\<in>set tokens. lexer_token t"
    and "\<forall>t\<in>set stack. t \<noteq> RParen \<and> (\<forall>u. t = Op u \<longrightarrow> u \<in> set binary_ops)"
  shows "(case toRPN_loop tokens output stack prevToken of
            Inl err \<Rightarrow> err \<in> {MisplacedComma, MismatchedParentheses}
                       \<and> \<not> paren_scan (count_list stack LParen) tokens
          | Inr (output', stack') \<Rightarrow>
              RParen \<notin> set stack'
              \<and> paren_scan (count_list stack LParen) tokens = (count_list stack' LParen = 0))"
  using assms
proof (induction tokens arbitrary: "output" stack prevToken)
  case Nil
  then show ?case by auto
next
  case (Cons t ts)
  from Cons.prems(1) have t: "lexer_token t" and ts: "\<forall>t\<in>set ts. lexer_token t" by simp_all
  note step = toRPN_step_depth [OF t Cons.prems(2), of "output" prevToken]
  show ?case
  proof (cases "toRPN_step t output stack prevToken")
    case (Inl err)
    with step show ?thesis by simp
  next
    case (Inr res)
    obtain output' stack' where res: "res = (output', stack')" by (cases res)
    from step Inr res
    have inv: "\<forall>t\<in>set stack'. t \<noteq> RParen \<and> (\<forall>u. t = Op u \<longrightarrow> u \<in> set binary_ops)"
      and sc: "paren_scan (count_list stack LParen) (t # ts) = paren_scan (count_list stack' LParen) ts"
      by simp_all
    from Cons.IH [OF ts inv, of output' "Some t"] Inr res sc
    show ?thesis by (auto split: sum.splits prod.splits)
  qed
qed

text \<open>
  Claim C10.  On the tokens of the tokenizer, \<open>toRPN\<close> fails exactly when the parentheses
  do not match or a comma stands outside every open parenthesis, that is, when the scan
  \<open>paren_scan\<close> from depth 0 fails: a right parenthesis or a comma met at depth 0, or a left
  parenthesis still open at the end.  The error is then \<open>Mismatched parentheses\<close> or
  \<open>Misplaced comma or parentheses\<close>; \<open>(2+3\<close> is rejected with the former.
\<close>

theorem toRPN_fails_iff_parentheses_mismatched:
  assumes "\<forall>t\<in>set tokens. lexer_token t"
  shows "((\<exists>err. toRPN tokens = Inl err) \<longleftrightarrow> \<not> paren_scan 0 tokens)
         \<and> (\<forall>err. toRPN tokens = Inl err \<longrightarrow> err \<in> {MisplacedComma, MismatchedParentheses})
         \<and> internalEvaluateExpression E (js ''(2+3'') = Inl MismatchedParentheses"
proof -
  note loop = toRPN_loop_depth [OF assms, of "[]" "[]" None]
  have "((\<exists>err. toRPN tokens = Inl err) \<longleftrightarrow> \<not> paren_scan 0 tokens)
         \<and> (\<forall>err. toRPN tokens = Inl err \<longrightarrow> err \<in> {MisplacedComma, MismatchedParentheses})"
  proof (cases "toRPN_loop tokens [] [] None")
    case (Inl err)
    with loop show ?thesis by (simp add: toRPN_def)
  next
    case (Inr res)
    obtain output' stack' where res: "res = (output', stack')" by (cases res)
    from loop Inr res have r: "RParen \<notin> set stack'"
      and sc: "paren_scan 0 tokens = (count_list stack' LParen = 0)"
      by simp_all
    have "toRPN tokens = toRPN_finish output' stack'"
      using Inr res by (simp add: toRPN_def)
    with toRPN_finish_eq [OF r, of output'] sc show ?thesis by auto
  qed
  moreover have "internalEvaluateExpression E (js ''(2+3'') = Inl MismatchedParentheses"
    by (simp add: pipeline_defs)
  ultimately show ?thesis by blast
qed

theorem toRPN_fails_iff_parentheses_mismatched_witness:
  "lexer_token LParen \<and> lexer_token RParen \<and> lexer_token Comma
   \<and> lexer_token (Number (Fin 2)) \<and> lexer_token (Op (js ''+''))
   \<and> \<not> paren_scan 0 [LParen, Number (Fin 2), Op (js ''+''), Number (Fin 3)]
   \<and> toRPN [LParen, Number (Fin 2), Op (js ''+''), Number (Fin 3)] = Inl MismatchedParentheses
   \<and> \<not> paren_scan 0 [Number (Fin 2), RParen]
   \<and> toRPN [Number (Fin 2), RParen] = Inl MismatchedParentheses
   \<and> \<not> paren_scan 0 [Number (Fin 2), Comma, Number (Fin 3)]
   \<and> toRPN [Number (Fin 2), Comma, Number (Fin 3)] = Inl MisplacedComma
   \<and> paren_scan 0 [LParen, Number (Fin 2), Op (js ''+''), Number (Fin 3), RParen]
   \<and> toRPN [LParen, Number (Fin 2), Op (js ''+''), Number (Fin 3), RParen]
       = Inr [Number (Fin 2), Number (Fin 3), Op (js ''+'')]"
proof -
  let ?E = "\<lparr>useDegrees = True, hasLog10 = True\<rparr>"
  have lex: "lexer_token LParen \<and> lexer_token RParen \<and> lexer_token Comma
      \<and> lexer_token (Number (Fin 2)) \<and> lexer_token (Op (js ''+''))"
    by (simp add: binary_ops_def)
  have l1: "\<forall>t\<in>set [LParen, Number (Fin 2), Op (js ''+''), Number (Fin 3)]. lexer_token t"
    by (simp add: binary_ops_def)
  have l2: "\<forall>t\<in>set [LParen, Number (Fin 2), Op (js ''+''), Number (Fin 3), RParen]. lexer_token t"
    by (simp add: binary_ops_def)
  have s1: "\<not> paren_scan 0 [LParen, Number (Fin 2), Op (js ''+''), Number (Fin 3)]" by simp
  have s2: "paren_scan 0 [LParen, Number (Fin 2), Op (js ''+''), Number (Fin 3), RParen]" by simp
  have s3: "\<not> paren_scan 0 [Number (Fin 2), RParen]" by simp
  have s4: "\<not> paren_scan 0 [Number (Fin 2), Comma, Number (Fin 3)]" by simp
  from toRPN_fails_iff_parentheses_mismatched [OF l1, of ?E] s1
  have "\<exists>err. toRPN [LParen, Number (Fin 2), Op (js ''+''), Number (Fin 3)] = Inl err"
    by blast
  then have e1: "toRPN [LParen, Number (Fin 2), Op (js ''+''), Number (Fin 3)] = Inl MismatchedParentheses"
    by (simp add: toRPN_def isUnary_def)
  from toRPN_fails_iff_parentheses_mismatched [OF l2, of ?E] s2
  have "\<not> (\<exists>err. toRPN [LParen, Number (Fin 2), Op (js ''+''), Number (Fin 3), RParen] = Inl err)"
    by blast
  then have e2: "toRPN [LParen, Number (Fin 2), Op (js ''+''), Number (Fin 3), RParen]
       = Inr [Number (Fin 2), Number (Fin 3), Op (js ''+'')]"
    by (simp add: toRPN_def isUnary_def)
  have e3: "toRPN [Number (Fin 2), RParen] = Inl MismatchedParentheses"
    by (simp add: toRPN_def)
  have e4: "toRPN [Number (Fin 2), Comma, Number (Fin 3)] = Inl MisplacedComma"
    by (simp add: toRPN_def)
  from lex s1 e1 s3 e3 s4 e4 s2 e2 show ?thesis by blast
qed

section \<open>Precedence and associativity\<close>

lemma OPS_spec:
  assumes "v \<in> set binary_ops"
  shows "\<exists>d. OPS v = Some d \<and> prec d = spec_prec v
              \<and> assoc d = (if spec_right_assoc v then AssocR else AssocL)
              \<and> (\<forall>a b. fn d a b = spec_apply v a b)"
  using assms
  by (auto simp: binary_ops_def OPS_def spec_prec_def spec_right_assoc_def spec_apply_def js_def)

lemma right_assoc_same_prec:
  assumes "v \<in> set binary_ops" and "u \<in> set binary_ops"
    and "spec_prec u = spec_prec v"
  shows "spec_right_assoc u = spec_right_assoc v"
  using assms
  by (auto simp: binary_ops_def spec_prec_def spec_right_assoc_def js_def split: if_splits)

lemma postfix_body_spine: "postfix_tokens t = body t @ spine t"
  by (induction t) simp_all

text \<open>The inner loop stops at an operator that the new one binds tighter than, and pops
  any other.\<close>

lemma pop_ops_stop:
  assumes "v \<in> set binary_ops" and "u \<in> set binary_ops" and "binds_tighter v u"
  shows "pop_ops v output (Op u # stack) = Inr (output, Op u # stack)"
proof -
  obtain d1 where d1: "OPS v = Some d1" "prec d1 = spec_prec v"
      "assoc d1 = (if spec_right_assoc v then AssocR else AssocL)"
    using OPS_spec [OF assms(1)] by blast
  obtain d2 where d2: "OPS u = Some d2" "prec d2 = spec_prec u"
    using OPS_spec [OF assms(2)] by blast
  show ?thesis using d1 d2 assms(3) by (auto simp: binds_tighter_def)
qed

lemma pop_ops_pop:
  assumes "v \<in> set binary_ops" and "u \<in> set binary_ops" and "\<not> binds_tighter v u"
  shows "pop_ops v output (Op u # stack) = pop_ops v (output @ [Op u]) stack"
proof -
  obtain d1 where d1: "OPS v = Some d1" "prec d1 = spec_prec v"
      "assoc d1 = (if spec_right_assoc v then AssocR else AssocL)"
    using OPS_spec [OF assms(1)] by blast
  obtain d2 where d2: "OPS u = Some d2" "prec d2 = spec_prec u"
    using OPS_spec [OF assms(2)] by blast
  show ?thesis using d1 d2 assms(3) by (auto simp: binds_tighter_def)
qed

lemma pop_ops_all:
  assumes "v \<in> set binary_ops"
    and "\<forall>t\<in>set pre. \<exists>w. t = Op w \<and> w \<in> set binary_ops \<and> \<not> binds_tighter v w"
    and "pop_ops v (output @ pre) below = Inr (output @ pre, below)"
  shows "pop_ops v output (pre @ below) = Inr (output @ pre, below)"
  using assms(2,3)
proof (induction pre arbitrary: "output")
  case Nil
  then show ?case by simp
next
  case (Cons t pre)
  then obtain w where w: "t = Op w" "w \<in> set binary_ops" "\<not> binds_tighter v w" by auto
  have "pop_ops v output ((t # pre) @ below) = pop_ops v (output @ [t]) (pre @ below)"
    using pop_ops_pop [OF assms(1) w(2,3)] w(1) by simp
  also have "\<dots> = Inr ((output @ [t]) @ pre, below)"
    using Cons.prems by (intro Cons.IH) simp_all
  finally show ?case by simp
qed

lemma spine_prec:
  assumes "respects_precedence t" and "root_op t = Some u" and "Op w \<in> set (spine t)"
  shows "spec_prec u \<le> spec_prec w"
  using assms
proof (induction t arbitrary: u)
  case (Lit x)
  then show ?case by simp
next
  case (Bin v l r)
  then have u: "u = v" by simp
  from Bin.prems(3) have "w = v \<or> Op w \<in> set (spine r)" by auto
  then show ?case
  proof
    assume "w = v" with u show ?thesis by simp
  next
    assume in_r: "Op w \<in> set (spine r)"
    then obtain ur rl rr where r: "r = Bin ur rl rr" by (cases r) auto
    from Bin.prems(1) r have "spec_prec v \<le> spec_prec ur" by auto
    moreover from Bin.IH(2) [of ur] Bin.prems(1) r in_r have "spec_prec ur \<le> spec_prec w" by simp
    ultimately show ?thesis using u by simp
  qed
qed

lemma spine_ops: "Op w \<in> set (spine t) \<Longrightarrow> w \<in> set (tree_ops t)"
  by (induction t) auto

lemma spine_only_ops: "t \<in> set (spine tr) \<Longrightarrow> \<exists>w. t = Op w"
  by (induction tr) auto

lemma pop_ops_below:
  assumes "v \<in> set binary_ops"
    and "below = [] \<or> (\<exists>u rs. below = Op u # rs \<and> u \<in> set binary_ops \<and> binds_tighter v u)"
  shows "pop_ops v output below = Inr (output, below)"
  using assms(2) pop_ops_stop [OF assms(1)] by auto

text \<open>
  With the right spine of a tree on top of the stack, the inner loop for a new operator
  \<open>v\<close> leaves the output and the stack of the tree that \<open>insert_op\<close> builds (before the
  new literal is written and with \<open>v\<close> still to be pushed).
\<close>

lemma pop_ops_spine:
  assumes "v \<in> set binary_ops"
    and "set (tree_ops t) \<subseteq> set binary_ops"
    and "respects_precedence t"
    and "below = [] \<or> (\<exists>u rs. below = Op u # rs \<and> u \<in> set binary_ops \<and> binds_tighter v u)"
  shows "\<exists>P S. pop_ops v output (spine t @ below) = Inr (output @ P, S @ below)
               \<and> body (insert_op v x t) = body t @ P @ [Number x]
               \<and> spine (insert_op v x t) = Op v # S"
  using assms(2,3,4)
proof (induction t arbitrary: "output" below)
  case (Lit y)
  have "pop_ops v output (spine (Lit y) @ below) = Inr (output @ [], [] @ below)"
    using pop_ops_below [OF assms(1) Lit.prems(3)] by simp
  moreover have "body (insert_op v x (Lit y)) = body (Lit y) @ [] @ [Number x]" by simp
  moreover have "spine (insert_op v x (Lit y)) = Op v # []" by simp
  ultimately show ?case by blast
next
  case (Bin u l r)
  from Bin.prems(1) have u: "u \<in> set binary_ops"
    and r_ops: "set (tree_ops r) \<subseteq> set binary_ops" by simp_all
  from Bin.prems(2) have r_ok: "respects_precedence r" by simp
  show ?case
  proof (cases "binds_tighter v u")
    case True
    then have "Op u # below = [] \<or> (\<exists>u' rs. Op u # below = Op u' # rs
                 \<and> u' \<in> set binary_ops \<and> binds_tighter v u')"
      using u by simp
    from Bin.IH(2) [OF r_ops r_ok this, of "output"]
    obtain P S where p: "pop_ops v output (spine r @ Op u # below) = Inr (output @ P, S @ Op u # below)"
      and b: "body (insert_op v x r) = body r @ P @ [Number x]"
      and s: "spine (insert_op v x r) = Op v # S"
      by blast
    have "pop_ops v output (spine (Bin u l r) @ below) = Inr (output @ P, (S @ [Op u]) @ below)"
      using p by simp
    moreover have "body (insert_op v x (Bin u l r)) = body (Bin u l r) @ P @ [Number x]"
      using True b by simp
    moreover have "spine (insert_op v x (Bin u l r)) = Op v # (S @ [Op u])"
      using True s by simp
    ultimately show ?thesis by blast
  next
    case False
    have all: "\<forall>t\<in>set (spine (Bin u l r)).
                 \<exists>w. t = Op w \<and> w \<in> set binary_ops \<and> \<not> binds_tighter v w"
    proof
      fix t assume t: "t \<in> set (spine (Bin u l r))"
      then obtain w where w: "t = Op w" using spine_only_ops by blast
      with t have "w \<in> set (tree_ops (Bin u l r))" using spine_ops by blast
      with Bin.prems(1) have wv: "w \<in> set binary_ops" by blast
      have "spec_prec u \<le> spec_prec w"
        using spine_prec [OF Bin.prems(2), of u w] t w by simp
      with False have "\<not> binds_tighter v w"
        by (auto simp: binds_tighter_def)
      with w wv show "\<exists>w. t = Op w \<and> w \<in> set binary_ops \<and> \<not> binds_tighter v w" by blast
    qed
    have "pop_ops v (output @ spine (Bin u l r)) below = Inr (output @ spine (Bin u l r), below)"
      using pop_ops_below [OF assms(1) Bin.prems(3)] .
    from pop_ops_all [OF assms(1) all this]
    have "pop_ops v output (spine (Bin u l r) @ below)
            = Inr (output @ spine (Bin u l r), [] @ below)"
      by simp
    moreover have "body (insert_op v x (Bin u l r))
            = body (Bin u l r) @ spine (Bin u l r) @ [Number x]"
      using False by (simp add: postfix_body_spine)
    moreover have "spine (insert_op v x (Bin u l r)) = Op v # []"
      using False by simp
    ultimately show ?thesis by blast
  qed
qed

lemma insert_op_infix: "infix_tokens (insert_op v x t) = infix_tokens t @ [Op v, Number x]"
  by (induction t) simp_all

lemma insert_op_ops: "set (tree_ops (insert_op v x t)) = insert v (set (tree_ops t))"
  by (induction t) auto

lemma insert_op_root: "root_op (insert_op v x t) = Some v \<or> root_op (insert_op v x t) = root_op t"
  by (cases t) simp_all

lemma insert_op_respects:
  assumes "v \<in> set binary_ops"
    and "set (tree_ops t) \<subseteq> set binary_ops"
    and "respects_precedence t"
  shows "respects_precedence (insert_op v x t)"
  using assms(2,3)
proof (induction t)
  case (Lit y)
  then show ?case by simp
next
  case (Bin u l r)
  from Bin.prems(1) have u: "u \<in> set binary_ops"
    and r_ops: "set (tree_ops r) \<subseteq> set binary_ops" by simp_all
  show ?case
  proof (cases "binds_tighter v u")
    case True
    have r': "respects_precedence (insert_op v x r)"
      using Bin.IH(2) [OF r_ops] Bin.prems(2) by simp
    have right: "case root_op (insert_op v x r) of
                   None \<Rightarrow> True
                 | Some w \<Rightarrow> spec_prec u < spec_prec w
                             \<or> (spec_prec w = spec_prec u \<and> spec_right_assoc u)"
    proof (cases "root_op (insert_op v x r) = Some v")
      case True
      moreover have "spec_prec u < spec_prec v \<or> (spec_prec v = spec_prec u \<and> spec_right_assoc u)"
        using \<open>binds_tighter v u\<close> right_assoc_same_prec [OF assms(1) u]
        by (auto simp: binds_tighter_def)
      ultimately show ?thesis by simp
    next
      case False
      then have "root_op (insert_op v x r) = root_op r"
        using insert_op_root [of v x r] by blast
      then show ?thesis using Bin.prems(2) by simp
    qed
    show ?thesis using True r' right Bin.prems(2) by simp
  next
    case False
    then have "spec_prec v < spec_prec u \<or> (spec_prec u = spec_prec v \<and> \<not> spec_right_assoc v)"
      by (auto simp: binds_tighter_def)
    then show ?thesis using False Bin.prems(2) by simp
  qed
qed

lemma evalRPN_loop_append:
  "evalRPN_loop E st (xs @ ys)
     = (case evalRPN_loop E st xs of Inl err \<Rightarrow> Inl err | Inr st' \<Rightarrow> evalRPN_loop E st' ys)"
  by (induction xs arbitrary: st) (simp_all split: sum.splits)

lemma evalRPN_loop_postfix:
  assumes "set (tree_ops t) \<subseteq> set binary_ops"
  shows "evalRPN_loop E st (postfix_tokens t)
           = (case tree_value t of Inl err \<Rightarrow> Inl err | Inr x \<Rightarrow> Inr (x # st))"
  using assms
proof (induction t arbitrary: st)
  case (Lit x)
  then show ?case by simp
next
  case (Bin v l r)
  from Bin.prems have v: "v \<in> set binary_ops"
    and l: "set (tree_ops l) \<subseteq> set binary_ops"
    and r: "set (tree_ops r) \<subseteq> set binary_ops"
    by simp_all
  obtain d where d: "OPS v = Some d" "\<forall>a b. fn d a b = spec_apply v a b"
    using OPS_spec [OF v] by blast
  show ?case
    using Bin.IH(1) [OF l] Bin.IH(2) [OF r] d
    by (simp add: evalRPN_loop_append Let_def split: sum.splits)
qed

lemma expression_tree_invariants:
  assumes "\<forall>p\<in>set rest. fst p \<in> set binary_ops"
    and "set (tree_ops t) \<subseteq> set binary_ops"
    and "respects_precedence t"
  shows "set (tree_ops (foldl (\<lambda>t (v, x). insert_op v x t) t rest)) \<subseteq> set binary_ops
         \<and> respects_precedence (foldl (\<lambda>t (v, x). insert_op v x t) t rest)
         \<and> infix_tokens (foldl (\<lambda>t (v, x). insert_op v x t) t rest)
             = infix_tokens t @ concat (map (\<lambda>(v, x). [Op v, Number x]) rest)"
  using assms
proof (induction rest arbitrary: t)
  case Nil
  then show ?case by simp
next
  case (Cons p rest)
  obtain v x where p: "p = (v, x)" by (cases p)
  with Cons.prems(1) have v: "v \<in> set binary_ops"
    and rest: "\<forall>p\<in>set rest. fst p \<in> set binary_ops" by simp_all
  have ops: "set (tree_ops (insert_op v x t)) \<subseteq> set binary_ops"
    using v Cons.prems(2) by (simp add: insert_op_ops)
  have ok: "respects_precedence (insert_op v x t)"
    using insert_op_respects [OF v Cons.prems(2,3)] .
  from Cons.IH [OF rest ops ok] p show ?case
    by (simp add: insert_op_infix)
qed

lemma toRPN_loop_pairs:
  assumes "\<forall>p\<in>set rest. fst p \<in> set binary_ops"
    and "set (tree_ops t) \<subseteq> set binary_ops"
    and "respects_precedence t"
  shows "toRPN_loop (concat (map (\<lambda>(v, x). [Op v, Number x]) rest)) (body t) (spine t)
           (Some (Number y))
         = Inr (body (foldl (\<lambda>t (v, x). insert_op v x t) t rest),
                spine (foldl (\<lambda>t (v, x). insert_op v x t) t rest))"
  using assms
proof (induction rest arbitrary: t y)
  case Nil
  then show ?case by simp
next
  case (Cons p rest)
  obtain v x where p: "p = (v, x)" by (cases p)
  with Cons.prems(1) have v: "v \<in> set binary_ops"
    and rest: "\<forall>p\<in>set rest. fst p \<in> set binary_ops" by simp_all
  have ops: "set (tree_ops (insert_op v x t)) \<subseteq> set binary_ops"
    using v Cons.prems(2) by (simp add: insert_op_ops)
  have ok: "respects_precedence (insert_op v x t)"
    using insert_op_respects [OF v Cons.prems(2,3)] .
  from pop_ops_spine [OF v Cons.prems(2,3), of "[]" "body t" x]
  obtain P S where pop: "pop_ops v (body t) (spine t) = Inr (body t @ P, S)"
    and b: "body (insert_op v x t) = body t @ P @ [Number x]"
    and s: "spine (insert_op v x t) = Op v # S"
    by auto
  have "\<not> isUnary v (Some (Number y))" by (simp add: isUnary_def)
  then have "toRPN_loop (concat (map (\<lambda>(v, x). [Op v, Number x]) (p # rest))) (body t) (spine t)
           (Some (Number y))
        = toRPN_loop (concat (map (\<lambda>(v, x). [Op v, Number x]) rest))
            (body (insert_op v x t)) (spine (insert_op v x t)) (Some (Number x))"
    using p pop b s by simp
  also have "\<dots> = Inr (body (foldl (\<lambda>t (v, x). insert_op v x t) (insert_op v x t) rest),
                spine (foldl (\<lambda>t (v, x). insert_op v x t) (insert_op v x t) rest))"
    using Cons.IH [OF rest ops ok] .
  finally show ?case using p by simp
qed

text \<open>
  A tree that needs no parentheses is determined by its infix tokens: it is the tree that
  \<open>expression_tree\<close> builds from them.
\<close>

lemma infix_tokens_pairs:
  "infix_tokens t = expression_tokens (first_literal t) (operator_pairs t)"
  by (induction t) (simp_all add: expression_tokens_def)

lemma expression_tokens_inject:
  assumes "expression_tokens x0 rest = expression_tokens y0 rest'"
  shows "x0 = y0 \<and> rest = rest'"
proof -
  have "concat (map (\<lambda>(v, x). [Op v, Number x]) rest)
          = concat (map (\<lambda>(v, x). [Op v, Number x]) rest') \<Longrightarrow> rest = rest'"
  proof (induction rest arbitrary: rest')
    case Nil
    then show ?case by (cases rest') (auto split: prod.splits)
  next
    case (Cons p rest)
    then show ?case by (cases rest'; cases p) (auto split: prod.splits)
  qed
  with assms show ?thesis by (simp add: expression_tokens_def)
qed

lemma operator_pairs_ops: "fst ` set (operator_pairs t) = set (tree_ops t)"
  by (induction t) (auto simp: image_Un)

lemma subtree_prec:
  assumes "respects_precedence t" and "root_op t = Some u" and "w \<in> set (tree_ops t)"
  shows "spec_prec u \<le> spec_prec w"
  using assms
proof (induction t arbitrary: u)
  case (Lit x)
  then show ?case by simp
next
  case (Bin v l r)
  then have u: "u = v" by simp
  from Bin.prems(3) consider "w = v" | "w \<in> set (tree_ops l)" | "w \<in> set (tree_ops r)" by auto
  then show ?case
  proof cases
    case 1
    with u show ?thesis by simp
  next
    case 2
    then obtain ul ll lr where l: "l = Bin ul ll lr" by (cases l) auto
    from Bin.prems(1) l have "spec_prec v \<le> spec_prec ul" by auto
    moreover from Bin.IH(1) [of ul] Bin.prems(1) l 2 have "spec_prec ul \<le> spec_prec w" by simp
    ultimately show ?thesis using u by simp
  next
    case 3
    then obtain ur rl rr where r: "r = Bin ur rl rr" by (cases r) auto
    from Bin.prems(1) r have "spec_prec v \<le> spec_prec ur" by auto
    moreover from Bin.IH(2) [of ur] Bin.prems(1) r 3 have "spec_prec ur \<le> spec_prec w" by simp
    ultimately show ?thesis using u by simp
  qed
qed

lemma insert_below:
  assumes "\<forall>p\<in>set ps. binds_tighter (fst p) v"
  shows "foldl (\<lambda>t (w, x). insert_op w x t) (Bin v l s) ps
           = Bin v l (foldl (\<lambda>t (w, x). insert_op w x t) s ps)"
  using assms by (induction ps arbitrary: s) (auto split: prod.splits)

lemma insert_above:
  assumes "case root_op l of
             None \<Rightarrow> True
           | Some u \<Rightarrow> spec_prec v < spec_prec u
                       \<or> (spec_prec u = spec_prec v \<and> \<not> spec_right_assoc v)"
  shows "insert_op v x l = Bin v l (Lit x)"
  using assms by (cases l) (auto simp: binds_tighter_def)

lemma expression_tree_of_pairs:
  assumes "respects_precedence t" and "set (tree_ops t) \<subseteq> set binary_ops"
  shows "foldl (\<lambda>t (w, x). insert_op w x t) (Lit (first_literal t)) (operator_pairs t) = t"
  using assms
proof (induction t)
  case (Lit x)
  then show ?case by simp
next
  case (Bin v l r)
  from Bin.prems have l: "respects_precedence l" "set (tree_ops l) \<subseteq> set binary_ops"
    and r: "respects_precedence r" "set (tree_ops r) \<subseteq> set binary_ops"
    and v: "v \<in> set binary_ops"
    by simp_all
  have below: "\<forall>p\<in>set (operator_pairs r). binds_tighter (fst p) v"
  proof
    fix p assume "p \<in> set (operator_pairs r)"
    then have w: "fst p \<in> set (tree_ops r)" using operator_pairs_ops [of r] by blast
    then obtain ur rl rr where rt: "r = Bin ur rl rr" by (cases r) auto
    have "spec_prec ur \<le> spec_prec (fst p)"
      using subtree_prec [OF r(1), of ur "fst p"] rt w by simp
    moreover from Bin.prems(1) rt
    have "spec_prec v < spec_prec ur \<or> (spec_prec ur = spec_prec v \<and> spec_right_assoc v)"
      by simp
    moreover have "spec_prec (fst p) = spec_prec v \<Longrightarrow> spec_right_assoc (fst p) = spec_right_assoc v"
      using right_assoc_same_prec [OF v, of "fst p"] w r(2) by blast
    ultimately show "binds_tighter (fst p) v"
      by (auto simp: binds_tighter_def)
  qed
  have "foldl (\<lambda>t (w, x). insert_op w x t) (Lit (first_literal (Bin v l r)))
          (operator_pairs (Bin v l r))
        = foldl (\<lambda>t (w, x). insert_op w x t) (insert_op v (first_literal r) l) (operator_pairs r)"
    using Bin.IH(1) [OF l] by simp
  also have "\<dots> = foldl (\<lambda>t (w, x). insert_op w x t) (Bin v l (Lit (first_literal r)))
          (operator_pairs r)"
    using insert_above [where l = l and v = v and x = "first_literal r"] Bin.prems(1) by simp
  also have "\<dots> = Bin v l (foldl (\<lambda>t (w, x). insert_op w x t) (Lit (first_literal r))
          (operator_pairs r))"
    using insert_below [OF below] .
  also have "\<dots> = Bin v l r"
    using Bin.IH(2) [OF r] by simp
  finally show ?case .
qed

lemma respectful_tree_unique:
  assumes "respects_precedence t" and "set (tree_ops t) \<subseteq> set binary_ops"
    and "infix_tokens t = expression_tokens x0 rest"
  shows "t = expression_tree x0 rest"
proof -
  from assms(3) have "x0 = first_literal t" "rest = operator_pairs t"
    using expression_tokens_inject [of x0 rest "first_literal t" "operator_pairs t"]
    by (simp_all add: infix_tokens_pairs)
  then show ?thesis
    using expression_tree_of_pairs [OF assms(1,2)] by (simp add: expression_tree_def)
qed

text \<open>The tokenizer on a string of decimal literals and operators.\<close>

lemma tokenize_literal:
  assumes "literal_string s" and "rest = [] \<or> \<not> isNumChar (hd rest)"
  shows "tokenize_loop (s @ rest) toks = tokenize_loop rest (toks @ [Number (parseFloat s)])"
proof -
  from assms(1) obtain ch s' where s: "s = ch # s'"
    by (cases s) (auto simp: literal_string_def)
  from assms(1) s have nc: "isNumChar ch" and all: "\<forall>c\<in>set s'. isNumChar c"
    by (auto simp: literal_string_def list_all_iff)
  have rest: "takeWhile isNumChar rest = []" "dropWhile isNumChar rest = rest"
    using assms(2) by (cases rest; simp)+
  have tw: "takeWhile isNumChar (s' @ rest) = s'"
    using all rest by (simp add: takeWhile_append2)
  have dw: "dropWhile isNumChar (s' @ rest) = rest"
    using all rest by (simp add: dropWhile_append2)
  have nws: "\<not> isWhitespace ch"
    using nc by (auto simp: isNumChar_def isDigit_def isWhitespace_def)
  have start: "isDigit ch \<or> (ch = of_char CHR ''.''
                 \<and> (case s' @ rest of [] \<Rightarrow> False | c # _ \<Rightarrow> isDigit c))"
    using assms(1) s nc by (cases s') (auto simp: literal_string_def isNumChar_def)
  have dots: "\<not> 1 < length (filter (\<lambda>c. c = of_char CHR ''.'') (ch # s'))"
    using assms(1) s by (simp add: literal_string_def)
  have "tokenize_loop (ch # (s' @ rest)) toks
          = tokenize_loop rest (toks @ [Number (parseFloat (ch # s'))])"
    by (subst tokenize_loop.simps(2)) (use nws start dots in \<open>simp only: tw dw Let_def if_True if_False\<close>)
  then show ?thesis using s by simp
qed

lemma tokenize_operator:
  assumes "v \<in> set binary_ops"
  shows "tokenize_loop (v @ rest) toks = tokenize_loop rest (toks @ [Op v])"
  using assms
  by (auto simp: binary_ops_def js_def tokenize_loop.simps isWhitespace_def isDigit_def isAlpha_def)

lemma literal_string_first:
  assumes "literal_string s"
  shows "isNumChar (hd (s @ rest))"
  using assms by (cases s) (auto simp: literal_string_def)

lemma operator_first:
  assumes "v \<in> set binary_ops"
  shows "\<not> isNumChar (hd (v @ rest))"
  using assms by (auto simp: binary_ops_def js_def isNumChar_def isDigit_def)

lemma tokenize_pairs:
  assumes "\<forall>p\<in>set rest. fst p \<in> set binary_ops \<and> literal_string (snd p)"
  shows "tokenize_loop (concat (map (\<lambda>(v, s). v @ s) rest)) toks
           = Inr (toks @ concat (map (\<lambda>(v, x). [Op v, Number x])
                                    (map (\<lambda>(v, s). (v, parseFloat s)) rest)))"
  using assms
proof (induction rest arbitrary: toks)
  case Nil
  then show ?case by simp
next
  case (Cons p rest)
  obtain v s where p: "p = (v, s)" by (cases p)
  with Cons.prems have v: "v \<in> set binary_ops" and s: "literal_string s"
    and rest: "\<forall>p\<in>set rest. fst p \<in> set binary_ops \<and> literal_string (snd p)"
    by simp_all
  let ?tail = "concat (map (\<lambda>(v, s). v @ s) rest)"
  have next_char: "?tail = [] \<or> \<not> isNumChar (hd ?tail)"
  proof (cases rest)
    case Nil
    then show ?thesis by simp
  next
    case (Cons q rest')
    obtain u t where q: "q = (u, t)" by (cases q)
    with rest Cons have "u \<in> set binary_ops" by simp
    from operator_first [OF this, of "t @ concat (map (\<lambda>(v, s). v @ s) rest')"] Cons q
    show ?thesis by simp
  qed
  have "tokenize_loop (concat (map (\<lambda>(v, s). v @ s) (p # rest))) toks
          = tokenize_loop (s @ ?tail) (toks @ [Op v])"
    using tokenize_operator [OF v, of "s @ ?tail" toks] p by simp
  also have "\<dots> = tokenize_loop ?tail ((toks @ [Op v]) @ [Number (parseFloat s)])"
    using tokenize_literal [OF s next_char] .
  also have "\<dots> = Inr (((toks @ [Op v]) @ [Number (parseFloat s)])
                        @ concat (map (\<lambda>(v, x). [Op v, Number x])
                                    (map (\<lambda>(v, s). (v, parseFloat s)) rest)))"
    using Cons.IH [OF rest] .
  finally show ?case using p by simp
qed

lemma normalize_id:
  assumes "\<forall>c\<in>set s. isNumChar c \<or> c \<in> set (js ''+-*/^'')"
  shows "normalize s = s"
proof -
  have "\<forall>c\<in>set s. \<not> isWhitespace c \<and> c \<noteq> 247 \<and> c \<noteq> 215 \<and> c \<noteq> 8722"
    using assms by (auto simp: isNumChar_def isDigit_def isWhitespace_def js_def)
  then show ?thesis
    by (induction s) (auto simp: normalize_def)
qed

lemma expression_string_chars:
  assumes "literal_string s0"
    and "\<forall>p\<in>set rest. fst p \<in> set binary_ops \<and> literal_string (snd p)"
  shows "\<forall>c\<in>set (expression_string s0 rest). isNumChar c \<or> c \<in> set (js ''+-*/^'')"
proof -
  have lit: "literal_string s \<Longrightarrow> \<forall>c\<in>set s. isNumChar c" for s
    by (simp add: literal_string_def list_all_iff)
  have op: "v \<in> set binary_ops \<Longrightarrow> \<forall>c\<in>set v. c \<in> set (js ''+-*/^'')" for v
    by (auto simp: binary_ops_def js_def)
  show ?thesis
    using assms lit op by (fastforce simp: expression_string_def)
qed

lemma tokenize_expression_string:
  assumes "literal_string s0"
    and "\<forall>p\<in>set rest. fst p \<in> set binary_ops \<and> literal_string (snd p)"
  shows "tokenize (normalize (expression_string s0 rest))
           = Inr (expression_tokens (parseFloat s0) (map (\<lambda>(v, s). (v, parseFloat s)) rest))"
proof -
  let ?tail = "concat (map (\<lambda>(v, s). v @ s) rest)"
  have next_char: "?tail = [] \<or> \<not> isNumChar (hd ?tail)"
  proof (cases rest)
    case Nil
    then show ?thesis by simp
  next
    case (Cons q rest')
    obtain u t where q: "q = (u, t)" by (cases q)
    with assms(2) Cons have "u \<in> set binary_ops" by simp
    from operator_first [OF this, of "t @ concat (map (\<lambda>(v, s). v @ s) rest')"] Cons q
    show ?thesis by simp
  qed
  have "normalize (expression_string s0 rest) = expression_string s0 rest"
    using normalize_id [OF expression_string_chars [OF assms]] .
  then have "tokenize (normalize (expression_string s0 rest)) = tokenize_loop (s0 @ ?tail) []"
    by (simp add: tokenize_def expression_string_def)
  also have "\<dots> = tokenize_loop ?tail ([] @ [Number (parseFloat s0)])"
    using tokenize_literal [OF assms(1) next_char] .
  also have "\<dots> = Inr (([] @ [Number (parseFloat s0)])
                        @ concat (map (\<lambda>(v, x). [Op v, Number x])
                                    (map (\<lambda>(v, s). (v, parseFloat s)) rest)))"
    using tokenize_pairs [OF assms(2)] .
  finally show ?thesis by (simp add: expression_tokens_def)
qed

lemma expression_pipeline:
  assumes "\<forall>p\<in>set rest. fst p \<in> set binary_ops"
  shows "infix_tokens (expression_tree x0 rest) = expression_tokens x0 rest"
    and "respects_precedence (expression_tree x0 rest)"
    and "toRPN (expression_tokens x0 rest) = Inr (postfix_tokens (expression_tree x0 rest))"
    and "evalRPN E (postfix_tokens (expression_tree x0 rest))
           = standard_value (expression_tree x0 rest)"
proof -
  let ?T = "expression_tree x0 rest"
  have lit: "set (tree_ops (Lit x0)) \<subseteq> set binary_ops" "respects_precedence (Lit x0)"
    by simp_all
  from expression_tree_invariants [OF assms lit]
  have ops: "set (tree_ops ?T) \<subseteq> set binary_ops"
    and ok: "respects_precedence ?T"
    and inf: "infix_tokens ?T = expression_tokens x0 rest"
    by (simp_all add: expression_tree_def expression_tokens_def)
  have "toRPN_loop (expression_tokens x0 rest) [] [] None = Inr (body ?T, spine ?T)"
    using toRPN_loop_pairs [OF assms lit, of x0]
    by (simp add: expression_tokens_def expression_tree_def)
  moreover have "toRPN_finish (body ?T) (spine ?T) = Inr (body ?T @ spine ?T)"
  proof -
    have "RParen \<notin> set (spine ?T)" "LParen \<notin> set (spine ?T)"
      using spine_only_ops by blast+
    then show ?thesis by (simp add: toRPN_finish_eq count_list_0_iff)
  qed
  ultimately have rpn: "toRPN (expression_tokens x0 rest) = Inr (postfix_tokens ?T)"
    by (simp add: toRPN_def postfix_body_spine)
  have ev: "evalRPN E (postfix_tokens ?T) = standard_value ?T"
    using evalRPN_loop_postfix [OF ops, of E "[]"]
    by (simp add: evalRPN_def standard_value_def Let_def split: sum.splits)
  from inf show "infix_tokens ?T = expression_tokens x0 rest" .
  from ok show "respects_precedence ?T" .
  from rpn show "toRPN (expression_tokens x0 rest) = Inr (postfix_tokens ?T)" .
  from ev show "evalRPN E (postfix_tokens ?T) = standard_value ?T" .
qed

lemma expression_string_pipeline:
  assumes "literal_string s0"
    and "\<forall>p\<in>set srest. fst p \<in> set binary_ops \<and> literal_string (snd p)"
  shows "internalEvaluateExpression E (expression_string s0 srest)
           = standard_value
               (expression_tree (parseFloat s0) (map (\<lambda>(v, s). (v, parseFloat s)) srest))"
proof -
  let ?rest = "map (\<lambda>(v, s). (v, parseFloat s)) srest"
  have ops: "\<forall>p\<in>set ?rest. fst p \<in> set binary_ops"
    using assms(2) by auto
  show ?thesis
    using tokenize_expression_string [OF assms]
      expression_pipeline(3) [OF ops, of "parseFloat s0"]
      expression_pipeline(4) [OF ops, of E "parseFloat s0"]
    by (simp add: internalEvaluateExpression_def)
qed

text \<open>
  Claim C5.  Take an expression \<open>x0 v1 x1 \<dots> vn xn\<close> of literals and operators among
  \<open>+ - * / ^\<close>.  Its tree \<open>expression_tree x0 rest\<close> reads back as the expression and needs
  no parentheses under the precedences 2, 2, 3, 3, 4 with \<open>^\<close> right-associative and the
  others left-associative, and it is the only such tree; \<open>toRPN\<close> returns the postfix form
  of that tree, and \<open>evalRPN\<close> on it returns the value of the tree (or its error).  From a
  string of decimal literals and operators the whole pipeline returns the value of the tree
  of the literals' values.  In particular \<open>2+3*4\<close>, \<open>2^3^2\<close> and \<open>10-2-3\<close> evaluate to 14,
  512 and 5.
\<close>

theorem binary_expressions_follow_precedence:
  assumes "\<forall>p\<in>set rest. fst p \<in> set binary_ops"
  shows "infix_tokens (expression_tree x0 rest) = expression_tokens x0 rest
         \<and> respects_precedence (expression_tree x0 rest)
         \<and> (\<forall>t. respects_precedence t \<and> set (tree_ops t) \<subseteq> set binary_ops
                  \<and> infix_tokens t = expression_tokens x0 rest
                \<longrightarrow> t = expression_tree x0 rest)
         \<and> toRPN (expression_tokens x0 rest) = Inr (postfix_tokens (expression_tree x0 rest))
         \<and> evalRPN E (postfix_tokens (expression_tree x0 rest))
             = standard_value (expression_tree x0 rest)
         \<and> (literal_string s0
              \<and> (\<forall>p\<in>set srest. fst p \<in> set binary_ops \<and> literal_string (snd p))
            \<longrightarrow> internalEvaluateExpression E (expression_string s0 srest)
                  = standard_value
                      (expression_tree (parseFloat s0)
                         (map (\<lambda>(v, s). (v, parseFloat s)) srest)))
         \<and> internalEvaluateExpression E (js ''2+3*4'') = Inr (Fin 14)
         \<and> internalEvaluateExpression E (js ''2^3^2'') = Inr (Fin 512)
         \<and> internalEvaluateExpression E (js ''10-2-3'') = Inr (Fin 5)"
proof -
  note tokens = expression_pipeline [OF assms]
  have uniq: "\<forall>t. respects_precedence t \<and> set (tree_ops t) \<subseteq> set binary_ops
                  \<and> infix_tokens t = expression_tokens x0 rest
                \<longrightarrow> t = expression_tree x0 rest"
    using respectful_tree_unique by blast
  have strings: "literal_string s0
              \<and> (\<forall>p\<in>set srest. fst p \<in> set binary_ops \<and> literal_string (snd p))
            \<longrightarrow> internalEvaluateExpression E (expression_string s0 srest)
                  = standard_value
                      (expression_tree (parseFloat s0)
                         (map (\<lambda>(v, s). (v, parseFloat s)) srest))"
    using expression_string_pipeline by blast
  have "internalEvaluateExpression E (js ''2+3*4'') = Inr (Fin 14)"
    "internalEvaluateExpression E (js ''2^3^2'') = Inr (Fin 512)"
    "internalEvaluateExpression E (js ''10-2-3'') = Inr (Fin 5)"
    by (simp_all add: pipeline_defs)
  with tokens uniq strings show ?thesis by blast
qed

lemmas reference_defs =
  expression_tree_def expression_tokens_def binds_tighter_def spec_prec_def
  spec_right_assoc_def spec_apply_def standard_value_def binary_ops_def js_def js_sub_def
  is_integer_def

theorem binary_expressions_follow_precedence_witness:
  "fst (js ''+'', Fin 3) \<in> set binary_ops \<and> fst (js ''*'', Fin 4) \<in> set binary_ops
   \<and> fst (js ''^'', Fin 3) \<in> set binary_ops \<and> fst (js ''-'', Fin 2) \<in> set binary_ops
   \<and> expression_tree (Fin 2) [(js ''+'', Fin 3), (js ''*'', Fin 4)]
       = Bin (js ''+'') (Lit (Fin 2)) (Bin (js ''*'') (Lit (Fin 3)) (Lit (Fin 4)))
   \<and> toRPN [Number (Fin 2), Op (js ''+''), Number (Fin 3), Op (js ''*''), Number (Fin 4)]
       = Inr [Number (Fin 2), Number (Fin 3), Number (Fin 4), Op (js ''*''), Op (js ''+'')]
   \<and> evalRPN \<lparr>useDegrees = True, hasLog10 = True\<rparr>
        [Number (Fin 2), Number (Fin 3), Number (Fin 4), Op (js ''*''), Op (js ''+'')]
       = Inr (Fin 14)
   \<and> expression_tree (Fin 2) [(js ''^'', Fin 3), (js ''^'', Fin 2)]
       = Bin (js ''^'') (Lit (Fin 2)) (Bin (js ''^'') (Lit (Fin 3)) (Lit (Fin 2)))
   \<and> toRPN [Number (Fin 2), Op (js ''^''), Number (Fin 3), Op (js ''^''), Number (Fin 2)]
       = Inr [Number (Fin 2), Number (Fin 3), Number (Fin 2), Op (js ''^''), Op (js ''^'')]
   \<and> evalRPN \<lparr>useDegrees = True, hasLog10 = True\<rparr>
        [Number (Fin 2), Number (Fin 3), Number (Fin 2), Op (js ''^''), Op (js ''^'')]
       = Inr (Fin 512)
   \<and> expression_tree (Fin 10) [(js ''-'', Fin 2), (js ''-'', Fin 3)]
       = Bin (js ''-'') (Bin (js ''-'') (Lit (Fin 10)) (Lit (Fin 2))) (Lit (Fin 3))
   \<and> toRPN [Number (Fin 10), Op (js ''-''), Number (Fin 2), Op (js ''-''), Number (Fin 3)]
       = Inr [Number (Fin 10), Number (Fin 2), Op (js ''-''), Number (Fin 3), Op (js ''-'')]
   \<and> evalRPN \<lparr>useDegrees = True, hasLog10 = True\<rparr>
        [Number (Fin 10), Number (Fin 2), Op (js ''-''), Number (Fin 3), Op (js ''-'')]
       = Inr (Fin 5)
   \<and> literal_string (js ''2'') \<and> literal_string (js ''3'') \<and> literal_string (js ''4'')
   \<and> expression_string (js ''2'') [(js ''+'', js ''3''), (js ''*'', js ''4'')] = js ''2+3*4''
   \<and> internalEvaluateExpression \<lparr>useDegrees = True, hasLog10 = True\<rparr>
        (expression_string (js ''2'') [(js ''+'', js ''3''), (js ''*'', js ''4'')])
       = Inr (Fin 14)"
proof -
  let ?E = "\<lparr>useDegrees = True, hasLog10 = True\<rparr>"
  have m: "fst (js ''+'', Fin 3) \<in> set binary_ops \<and> fst (js ''*'', Fin 4) \<in> set binary_ops
     \<and> fst (js ''^'', Fin 3) \<in> set binary_ops \<and> fst (js ''-'', Fin 2) \<in> set binary_ops"
    by (simp add: binary_ops_def)
  have h1: "\<forall>p\<in>set [(js ''+'', Fin 3), (js ''*'', Fin 4)]. fst p \<in> set binary_ops"
    by (simp add: binary_ops_def)
  have h2: "\<forall>p\<in>set [(js ''^'', Fin 3), (js ''^'', Fin 2)]. fst p \<in> set binary_ops"
    by (simp add: binary_ops_def)
  have h3: "\<forall>p\<in>set [(js ''-'', Fin 2), (js ''-'', Fin 3)]. fst p \<in> set binary_ops"
    by (simp add: binary_ops_def)
  have t1: "expression_tree (Fin 2) [(js ''+'', Fin 3), (js ''*'', Fin 4)]
       = Bin (js ''+'') (Lit (Fin 2)) (Bin (js ''*'') (Lit (Fin 3)) (Lit (Fin 4)))"
    by (simp add: reference_defs)
  have t2: "expression_tree (Fin 2) [(js ''^'', Fin 3), (js ''^'', Fin 2)]
       = Bin (js ''^'') (Lit (Fin 2)) (Bin (js ''^'') (Lit (Fin 3)) (Lit (Fin 2)))"
    by (simp add: reference_defs)
  have t3: "expression_tree (Fin 10) [(js ''-'', Fin 2), (js ''-'', Fin 3)]
       = Bin (js ''-'') (Bin (js ''-'') (Lit (Fin 10)) (Lit (Fin 2))) (Lit (Fin 3))"
    by (simp add: reference_defs)
  have v1: "standard_value (Bin (js ''+'') (Lit (Fin 2)) (Bin (js ''*'') (Lit (Fin 3)) (Lit (Fin 4))))
       = Inr (Fin 14)"
    by (simp add: reference_defs)
  have v2: "standard_value (Bin (js ''^'') (Lit (Fin 2)) (Bin (js ''^'') (Lit (Fin 3)) (Lit (Fin 2))))
       = Inr (Fin 512)"
    by (simp add: reference_defs)
  have v3: "standard_value (Bin (js ''-'') (Bin (js ''-'') (Lit (Fin 10)) (Lit (Fin 2))) (Lit (Fin 3)))
       = Inr (Fin 5)"
    by (simp add: reference_defs)
  have ls: "literal_string (js ''2'') \<and> literal_string (js ''3'') \<and> literal_string (js ''4'')"
    by (simp add: literal_string_def js_def isNumChar_def isDigit_def)
  have hs: "\<forall>p\<in>set [(js ''+'', js ''3''), (js ''*'', js ''4'')].
              fst p \<in> set binary_ops \<and> literal_string (snd p)"
    using ls by (simp add: binary_ops_def)
  have es: "expression_string (js ''2'') [(js ''+'', js ''3''), (js ''*'', js ''4'')] = js ''2+3*4''"
    by (simp add: expression_string_def js_def)
  have pf: "parseFloat (js ''2'') = Fin 2" "parseFloat (js ''3'') = Fin 3"
    "parseFloat (js ''4'') = Fin 4"
    by (simp_all add: parseFloat_def digits_val_def js_def isDigit_def)
  note a1 = binary_expressions_follow_precedence [OF h1, of "Fin 2" ?E "js ''2''"
      "[(js ''+'', js ''3''), (js ''*'', js ''4'')]"]
  note a2 = binary_expressions_follow_precedence [OF h2, of "Fin 2" ?E]
  note a3 = binary_expressions_follow_precedence [OF h3, of "Fin 10" ?E]
  from a1 have r1: "toRPN [Number (Fin 2), Op (js ''+''), Number (Fin 3), Op (js ''*''), Number (Fin 4)]
       = Inr [Number (Fin 2), Number (Fin 3), Number (Fin 4), Op (js ''*''), Op (js ''+'')]"
    unfolding t1 by (simp add: expression_tokens_def)
  from a1 have e1: "evalRPN ?E
        [Number (Fin 2), Number (Fin 3), Number (Fin 4), Op (js ''*''), Op (js ''+'')]
       = Inr (Fin 14)"
    unfolding t1 v1 by simp
  from a2 have r2: "toRPN [Number (Fin 2), Op (js ''^''), Number (Fin 3), Op (js ''^''), Number (Fin 2)]
       = Inr [Number (Fin 2), Number (Fin 3), Number (Fin 2), Op (js ''^''), Op (js ''^'')]"
    unfolding t2 by (simp add: expression_tokens_def)
  from a2 have e2: "evalRPN ?E
        [Number (Fin 2), Number (Fin 3), Number (Fin 2), Op (js ''^''), Op (js ''^'')]
       = Inr (Fin 512)"
    unfolding t2 v2 by simp
  from a3 have r3: "toRPN [Number (Fin 10), Op (js ''-''), Number (Fin 2), Op (js ''-''), Number (Fin 3)]
       = Inr [Number (Fin 10), Number (Fin 2), Op (js ''-''), Number (Fin 3), Op (js ''-'')]"
    unfolding t3 by (simp add: expression_tokens_def)
  from a3 have e3: "evalRPN ?E
        [Number (Fin 10), Number (Fin 2), Op (js ''-''), Number (Fin 3), Op (js ''-'')]
       = Inr (Fin 5)"
    unfolding t3 v3 by simp
  from a1 ls hs
  have "internalEvaluateExpression ?E
          (expression_string (js ''2'') [(js ''+'', js ''3''), (js ''*'', js ''4'')])
        = standard_value
            (expression_tree (parseFloat (js ''2''))
               (map (\<lambda>(v, s). (v, parseFloat s)) [(js ''+'', js ''3''), (js ''*'', js ''4'')]))"
    by blast
  then have p1: "internalEvaluateExpression ?E
          (expression_string (js ''2'') [(js ''+'', js ''3''), (js ''*'', js ''4'')])
        = Inr (Fin 14)"
    by (simp add: pf t1 v1)
  from m t1 r1 e1 t2 r2 e2 t3 r3 e3 ls es p1 show ?thesis by blast
qed

end
